theory Spec2Isabelle
  imports Main "HOL-Library.Multiset"
begin

section \<open>Configuration (termul.py, lines 7-11)\<close>

text \<open>
  \<open>MAX_CONCURRENCY\<close> (the size of the connection pool) and \<open>WAF_DELAY\<close> (the length of
  the sleep) only bear on when a task gets its turn, which the model leaves to the
  schedule; \<open>WAF_STATUS\<close> is never read.
\<close>

definition TIMEOUT :: int where
  "TIMEOUT = 5"

definition CRITICAL_STOP_THRESHOLD :: int where
  "CRITICAL_STOP_THRESHOLD = 2"

section \<open>Data model\<close>

text \<open>
  A finding is the dictionary literal every check passes to \<open>add_finding\<close>: always the
  three string-valued keys \<open>"type"\<close>, \<open>"endpoint"\<close> and \<open>"risk"\<close>.
\<close>

record finding =
  type :: string
  endpoint :: string
  risk :: string

text \<open>
  The four module-level globals (lines 14-17). \<open>logic_graph\<close> is a
  \<open>defaultdict(list)\<close>: a key that was never indexed is absent.
\<close>

record scan_state =
  findings :: "finding list"
  critical_count :: int
  stop_scan :: bool
  logic_graph :: "string \<rightharpoonup> string list"

definition initial_state :: scan_state where
  "initial_state =
     \<lparr>findings = [], critical_count = 0, stop_scan = False, logic_graph = Map.empty\<rparr>"

text \<open>
  One call of \<open>session.request\<close> as \<open>fetch\<close> makes it: the keyword arguments of
  lines 41-47.
\<close>

record request =
  req_method :: string
  req_url :: string
  req_headers :: "(string \<times> string) list option"
  req_json :: "(string \<times> string) list option"
  req_timeout :: int

text \<open>
  What the body of the \<open>try\<close> in \<open>fetch\<close> does with one request: either the response
  is read (\<open>r.status\<close> and \<open>await r.text()\<close>), or something is raised on the way
  (connection refused, DNS failure, timeout, protocol error, cancellation, ...).
\<close>

datatype reply = Response int string | Raised

type_synonym outcome = "int option \<times> string option"

text \<open>
  The coroutine objects the orchestrator creates, one constructor per \<open>async def\<close>
  check, holding the arguments of the call (the session apart).
\<close>

datatype check =
    Check_exposed_route string
  | Check_missing_auth string
  | Check_idor string string
  | Check_privilege string string
  | Check_workflow string string

text \<open>
  asyncio runs the tasks on one thread and switches between them only at an
  \<open>await\<close> that suspends. A task wrapped by \<open>waf_guarded\<close> is therefore always in
  one of three places: in \<open>asyncio.sleep\<close> (the check has not started), inside the
  \<open>await fetch(...)\<close> of its check (with the loop variable \<open>i\<close> of \<open>check_idor\<close>,
  \<open>0\<close> for the checks without a loop, and the pair \<open>fetch\<close> is going to return), or
  returned.
\<close>

datatype coroutine =
    Sleeping check
  | InFetch check int outcome
  | Returned

text \<open>
  The whole state of a scan: the globals, the requests handed to \<open>session.request\<close>
  so far (oldest first), and the tasks given to \<open>asyncio.gather\<close>.
\<close>

record config = scan_state +
  sent :: "request list"
  tasks :: "coroutine list"

text \<open>Where a check is resumed: from its first line, or after its pending \<open>fetch\<close>.\<close>

datatype resume = Entry | After int outcome

section \<open>Utilities (lines 21-34)\<close>

definition add_finding :: "finding \<Rightarrow> 'a scan_state_scheme \<Rightarrow> 'a scan_state_scheme" where
  "add_finding f s =
     (let s1 = s\<lparr>findings := findings s @ [f]\<rparr>;
          s2 = (if risk f = ''CRITICAL''
                then s1\<lparr>critical_count := critical_count s1 + 1\<rparr> else s1)
      in if critical_count s2 \<ge> CRITICAL_STOP_THRESHOLD
         then s2\<lparr>stop_scan := True\<rparr> else s2)"

definition correlate :: "string \<Rightarrow> string \<Rightarrow> 'a scan_state_scheme \<Rightarrow> 'a scan_state_scheme" where
  "correlate source target s =
     s\<lparr>logic_graph := (logic_graph s)
          (source \<mapsto> (case logic_graph s source of None \<Rightarrow> [] | Some l \<Rightarrow> l) @ [target])\<rparr>"

section \<open>Checkers (lines 39-138)\<close>

text \<open>
  \<open>fetch\<close>: the session is the function from the request to what the network does
  with it. The request is logged in \<open>sent\<close>; the bare \<open>except\<close> turns everything
  raised into \<open>(None, None)\<close>. The reply is fixed when the request is made; the
  caller stays suspended until the event loop resumes it.
\<close>

definition fetch ::
  "(request \<Rightarrow> reply) \<Rightarrow> string \<Rightarrow> string \<Rightarrow> (string \<times> string) list option \<Rightarrow>
   (string \<times> string) list option \<Rightarrow> config \<Rightarrow> outcome \<times> config" where
  "fetch session method url headers json c =
     (let req = \<lparr>req_method = method, req_url = url, req_headers = headers,
                 req_json = json, req_timeout = TIMEOUT\<rparr>
      in (case session req of
            Response status text \<Rightarrow> (Some status, Some text)
          | Raised \<Rightarrow> (None, None),
          c\<lparr>sent := sent c @ [req]\<rparr>))"

text \<open>Python's \<open>str\<close> of an integer, used by the f-string of line 93.\<close>

definition digit :: "nat \<Rightarrow> char" where
  "digit n = ''0123456789'' ! n"

function str_nat :: "nat \<Rightarrow> string" where
  "str_nat n = (if n < 10 then [digit n] else str_nat (n div 10) @ [digit (n mod 10)])"
  by pat_completeness auto
termination
  by (relation "measure id") auto

declare str_nat.simps [simp del]

definition str :: "int \<Rightarrow> string" where
  "str i = (if i < 0 then CHR ''-'' # str_nat (nat (- i)) else str_nat (nat i))"

text \<open>
  Each check takes the point it is resumed at and returns \<open>None\<close> when it has
  returned, or \<open>Some (i, r)\<close> when it is suspended in a \<open>fetch\<close> that will return
  \<open>r\<close>.
\<close>

definition check_exposed_route ::
  "(request \<Rightarrow> reply) \<Rightarrow> string \<Rightarrow> resume \<Rightarrow> config \<Rightarrow> (int \<times> outcome) option \<times> config" where
  "check_exposed_route session url at c =
     (case at of
        Entry \<Rightarrow>
          if stop_scan c then (None, c)
          else (let (r, c') = fetch session ''GET'' url None None c in (Some (0, r), c'))
      | After _ (status, _) \<Rightarrow>
          (None,
           if status = Some 200
           then add_finding \<lparr>type = ''EXPOSED_ROUTE'', endpoint = url, risk = ''HIGH''\<rparr> c
           else c))"

definition check_missing_auth ::
  "(request \<Rightarrow> reply) \<Rightarrow> string \<Rightarrow> resume \<Rightarrow> config \<Rightarrow> (int \<times> outcome) option \<times> config" where
  "check_missing_auth session url at c =
     (case at of
        Entry \<Rightarrow>
          if stop_scan c then (None, c)
          else (let (r, c') = fetch session ''GET'' url None None c in (Some (0, r), c'))
      | After _ (status, _) \<Rightarrow>
          (None,
           if status = Some 200
           then add_finding \<lparr>type = ''MISSING_AUTH'', endpoint = url, risk = ''CRITICAL''\<rparr> c
           else c))"

text \<open>
  The head of the \<open>for i in range(1, 6)\<close> loop of \<open>check_idor\<close>, from the test of the
  range to the \<open>await fetch\<close> (lines 89-94).
\<close>

definition check_idor_loop ::
  "(request \<Rightarrow> reply) \<Rightarrow> string \<Rightarrow> (string \<times> string) list \<Rightarrow> int \<Rightarrow> config \<Rightarrow>
   (int \<times> outcome) option \<times> config" where
  "check_idor_loop session base headers i c =
     (if i < 6 then
        if stop_scan c then (None, c)
        else (let url = base @ ''?id='' @ str i;
                  (r, c') = fetch session ''GET'' url (Some headers) None c
              in (Some (i, r), c'))
      else (None, c))"

definition check_idor ::
  "(request \<Rightarrow> reply) \<Rightarrow> string \<Rightarrow> string \<Rightarrow> resume \<Rightarrow> config \<Rightarrow>
   (int \<times> outcome) option \<times> config" where
  "check_idor session base token at c =
     (let headers = [(''Authorization'', ''Bearer '' @ token)] in
      case at of
        Entry \<Rightarrow> check_idor_loop session base headers 1 c
      | After i (status, body) \<Rightarrow>
          (let url = base @ ''?id='' @ str i;
               c1 = (if status = Some 200
                     then correlate ''IDOR'' ''DATA_DISCLOSURE''
                            (add_finding \<lparr>type = ''IDOR'', endpoint = url, risk = ''CRITICAL''\<rparr> c)
                     else c)
           in check_idor_loop session base headers (i + 1) c1))"

definition check_privilege ::
  "(request \<Rightarrow> reply) \<Rightarrow> string \<Rightarrow> string \<Rightarrow> resume \<Rightarrow> config \<Rightarrow>
   (int \<times> outcome) option \<times> config" where
  "check_privilege session url token at c =
     (case at of
        Entry \<Rightarrow>
          if stop_scan c then (None, c)
          else (let headers = [(''Authorization'', ''Bearer '' @ token)];
                    (r, c') = fetch session ''POST'' url (Some headers) None c
                in (Some (0, r), c'))
      | After _ (status, _) \<Rightarrow>
          (None,
           if status = Some 200
           then correlate ''PRIVILEGE_ESCALATION'' ''ADMIN_ACTION''
                  (add_finding
                     \<lparr>type = ''PRIVILEGE_ESCALATION'', endpoint = url, risk = ''CRITICAL''\<rparr> c)
           else c))"

definition check_workflow ::
  "(request \<Rightarrow> reply) \<Rightarrow> string \<Rightarrow> string \<Rightarrow> resume \<Rightarrow> config \<Rightarrow>
   (int \<times> outcome) option \<times> config" where
  "check_workflow session url token at c =
     (case at of
        Entry \<Rightarrow>
          if stop_scan c then (None, c)
          else (let headers = [(''Authorization'', ''Bearer '' @ token)];
                    payload = [(''status'', ''completed'')];
                    (r, c') = fetch session ''POST'' url (Some headers) (Some payload) c
                in (Some (0, r), c'))
      | After _ (status, _) \<Rightarrow>
          (None,
           if status = Some 200
           then correlate ''WORKFLOW_BYPASS'' ''FINANCIAL_IMPACT''
                  (add_finding \<lparr>type = ''WORKFLOW_BYPASS'', endpoint = url, risk = ''HIGH''\<rparr> c)
           else c))"

section \<open>The event loop (lines 143-221)\<close>

text \<open>\<open>waf_guarded\<close> sleeps, then awaits the check: the task starts in the sleep.\<close>

definition waf_guarded :: "check \<Rightarrow> coroutine" where
  "waf_guarded task = Sleeping task"

definition run_check ::
  "(request \<Rightarrow> reply) \<Rightarrow> check \<Rightarrow> resume \<Rightarrow> config \<Rightarrow> (int \<times> outcome) option \<times> config" where
  "run_check session chk at c =
     (case chk of
        Check_exposed_route url \<Rightarrow> check_exposed_route session url at c
      | Check_missing_auth url \<Rightarrow> check_missing_auth session url at c
      | Check_idor base token \<Rightarrow> check_idor session base token at c
      | Check_privilege url token \<Rightarrow> check_privilege session url token at c
      | Check_workflow url token \<Rightarrow> check_workflow session url token at c)"

definition suspend :: "check \<Rightarrow> (int \<times> outcome) option \<times> config \<Rightarrow> coroutine \<times> config" where
  "suspend chk res =
     (case res of (None, c) \<Rightarrow> (Returned, c) | (Some (i, r), c) \<Rightarrow> (InFetch chk i r, c))"

text \<open>
  One turn of a task: everything it does between being resumed and its next
  suspension (or its return). A returned task does nothing.
\<close>

definition resume_task :: "(request \<Rightarrow> reply) \<Rightarrow> coroutine \<Rightarrow> config \<Rightarrow> coroutine \<times> config" where
  "resume_task session co c =
     (case co of
        Sleeping chk \<Rightarrow> suspend chk (run_check session chk Entry c)
      | InFetch chk i r \<Rightarrow> suspend chk (run_check session chk (After i r) c)
      | Returned \<Rightarrow> (Returned, c))"

text \<open>
  An event of the loop: the task it resumes (its index in \<open>tasks\<close>) and the behaviour
  of the network during that turn.
\<close>

type_synonym event = "nat \<times> (request \<Rightarrow> reply)"

definition step :: "event \<Rightarrow> config \<Rightarrow> config" where
  "step ev c =
     (case ev of (k, session) \<Rightarrow>
        if k < length (tasks c)
        then (let (co, c') = resume_task session (tasks c ! k) c
              in c'\<lparr>tasks := (tasks c')[k := co]\<rparr>)
        else c)"

text \<open>\<open>asyncio.gather\<close> under a schedule: the events in the order the loop runs them.\<close>

fun gather :: "event list \<Rightarrow> config \<Rightarrow> config" where
  "gather [] c = c"
| "gather (ev # evs) c = gather evs (step ev c)"

definition exposed :: "string list" where
  "exposed = [''admin'', ''api/admin'', ''debug'', ''internal'']"

definition missing_auth :: "string list" where
  "missing_auth = [''/api/admin'', ''/api/internal/report'']"

definition admin_eps :: "string list" where
  "admin_eps = [''/api/admin/approve'', ''/api/admin/delete'']"

text \<open>The list \<open>tasks\<close> as lines 154-219 build it.\<close>

definition scan_tasks :: "string \<Rightarrow> string \<Rightarrow> coroutine list" where
  "scan_tasks base_url token =
     map (\<lambda>r. waf_guarded (Check_exposed_route (base_url @ ''/'' @ r))) exposed
     @ map (\<lambda>ep. waf_guarded (Check_missing_auth (base_url @ ep))) missing_auth
     @ [waf_guarded (Check_idor (base_url @ ''/api/user/profile'') token)]
     @ map (\<lambda>ep. waf_guarded (Check_privilege (base_url @ ep) token)) admin_eps
     @ [waf_guarded (Check_workflow (base_url @ ''/api/order/complete'') token)]"

definition scan_start :: "string \<Rightarrow> string \<Rightarrow> scan_state \<Rightarrow> config" where
  "scan_start base_url token g =
     \<lparr>findings = findings g, critical_count = critical_count g, stop_scan = stop_scan g,
      logic_graph = logic_graph g, sent = [], tasks = scan_tasks base_url token\<rparr>"

definition finished :: "config \<Rightarrow> bool" where
  "finished c = (filter (\<lambda>co. co \<noteq> Returned) (tasks c) = [])"

text \<open>
  \<open>termul_full_async\<close> on the globals \<open>g\<close> under a schedule: the state in which
  \<open>await asyncio.gather(*tasks)\<close> returns, or \<open>None\<close> when some task has not returned
  at the end of the schedule.
\<close>

definition termul_full_async ::
  "string \<Rightarrow> string \<Rightarrow> event list \<Rightarrow> scan_state \<Rightarrow> config option" where
  "termul_full_async base_url token evs g =
     (let c = gather evs (scan_start base_url token g)
      in if finished c then Some c else None)"

section \<open>Vocabulary of the properties\<close>

text \<open>The number of findings whose risk is \<open>CRITICAL\<close>, as a Python integer.\<close>

definition count_critical :: "finding list \<Rightarrow> int" where
  "count_critical fs = int (length (filter (\<lambda>f. risk f = ''CRITICAL'') fs))"

text \<open>The number of findings of a type.\<close>

definition count_type :: "string \<Rightarrow> finding list \<Rightarrow> nat" where
  "count_type t fs = length (filter (\<lambda>f. type f = t) fs)"

text \<open>The four globals of a scan state, without the request log and the tasks.\<close>

definition globals :: "config \<Rightarrow> scan_state" where
  "globals c = \<lparr>findings = findings c, critical_count = critical_count c,
                stop_scan = stop_scan c, logic_graph = logic_graph c\<rparr>"

text \<open>
  What one turn of a task can do to the globals: nothing, or one of the five
  \<open>add_finding\<close> calls of the checks, with the \<open>correlate\<close> call that follows it in
  \<open>check_idor\<close>, \<open>check_privilege\<close> and \<open>check_workflow\<close>.
\<close>

inductive records :: "scan_state \<Rightarrow> scan_state \<Rightarrow> bool" where
  nothing: "records g g"
| exposed_route: "records g (add_finding \<lparr>type = ''EXPOSED_ROUTE'', endpoint = u, risk = ''HIGH''\<rparr> g)"
| missing_auth: "records g (add_finding \<lparr>type = ''MISSING_AUTH'', endpoint = u, risk = ''CRITICAL''\<rparr> g)"
| idor: "records g (correlate ''IDOR'' ''DATA_DISCLOSURE''
          (add_finding \<lparr>type = ''IDOR'', endpoint = u, risk = ''CRITICAL''\<rparr> g))"
| privilege: "records g (correlate ''PRIVILEGE_ESCALATION'' ''ADMIN_ACTION''
          (add_finding \<lparr>type = ''PRIVILEGE_ESCALATION'', endpoint = u, risk = ''CRITICAL''\<rparr> g))"
| workflow: "records g (correlate ''WORKFLOW_BYPASS'' ''FINANCIAL_IMPACT''
          (add_finding \<lparr>type = ''WORKFLOW_BYPASS'', endpoint = u, risk = ''HIGH''\<rparr> g))"

text \<open>
  The edge each check links its finding type to (lines 102, 119 and 138), and the graph
  this gives for a list of findings: a key for each linked type that occurs, with one
  edge per finding of the type.
\<close>

definition impact :: "string \<Rightarrow> string option" where
  "impact k =
     (if k = ''IDOR'' then Some ''DATA_DISCLOSURE''
      else if k = ''PRIVILEGE_ESCALATION'' then Some ''ADMIN_ACTION''
      else if k = ''WORKFLOW_BYPASS'' then Some ''FINANCIAL_IMPACT''
      else None)"

definition expected_graph :: "finding list \<Rightarrow> string \<rightharpoonup> string list" where
  "expected_graph fs k =
     (case impact k of
        None \<Rightarrow> None
      | Some t \<Rightarrow> if count_type k fs = 0 then None else Some (replicate (count_type k fs) t))"

text \<open>
  The request \<open>check_idor\<close> makes for the id written \<open>n\<close>, and the finding it records
  for it.
\<close>

definition idor_request :: "string \<Rightarrow> string \<Rightarrow> string \<Rightarrow> request" where
  "idor_request base token n =
     \<lparr>req_method = ''GET'', req_url = base @ ''?id='' @ n,
      req_headers = Some [(''Authorization'', ''Bearer '' @ token)], req_json = None,
      req_timeout = 5\<rparr>"

definition idor_finding :: "string \<Rightarrow> string \<Rightarrow> finding" where
  "idor_finding base n = \<lparr>type = ''IDOR'', endpoint = base @ ''?id='' @ n, risk = ''CRITICAL''\<rparr>"

text \<open>The requests a task may still make.\<close>

fun budget :: "coroutine \<Rightarrow> nat" where
  "budget (Sleeping (Check_idor _ _)) = 5"
| "budget (Sleeping _) = 1"
| "budget (InFetch (Check_idor _ _) i _) = nat (5 - i)"
| "budget (InFetch _ _ _) = 0"
| "budget Returned = 0"

text \<open>The requests of a task that are under way.\<close>

fun pending :: "coroutine \<Rightarrow> nat" where
  "pending (InFetch _ _ _) = 1"
| "pending _ = 0"

text \<open>The findings a task may still record: one per request under way or still to make.\<close>

definition potential :: "coroutine \<Rightarrow> nat" where
  "potential co = pending co + budget co"

text \<open>The turns a task needs at most before it has returned.\<close>

fun turns :: "coroutine \<Rightarrow> nat" where
  "turns (Sleeping (Check_idor _ _)) = 6"
| "turns (Sleeping _) = 2"
| "turns (InFetch (Check_idor _ _) i _) = nat (max 1 (6 - i))"
| "turns (InFetch _ _ _) = 1"
| "turns Returned = 0"

text \<open>The status \<open>fetch\<close> returns for a reply.\<close>

definition status_of :: "reply \<Rightarrow> int option" where
  "status_of rep = (case rep of Response status _ \<Rightarrow> Some status | Raised \<Rightarrow> None)"

text \<open>The request a check makes at loop index \<open>i\<close>, and the finding it records for a 200.\<close>

fun request_of :: "check \<Rightarrow> int \<Rightarrow> request" where
  "request_of (Check_exposed_route url) i =
     \<lparr>req_method = ''GET'', req_url = url, req_headers = None, req_json = None, req_timeout = 5\<rparr>"
| "request_of (Check_missing_auth url) i =
     \<lparr>req_method = ''GET'', req_url = url, req_headers = None, req_json = None, req_timeout = 5\<rparr>"
| "request_of (Check_idor base token) i =
     \<lparr>req_method = ''GET'', req_url = base @ ''?id='' @ str i,
      req_headers = Some [(''Authorization'', ''Bearer '' @ token)], req_json = None,
      req_timeout = 5\<rparr>"
| "request_of (Check_privilege url token) i =
     \<lparr>req_method = ''POST'', req_url = url,
      req_headers = Some [(''Authorization'', ''Bearer '' @ token)], req_json = None,
      req_timeout = 5\<rparr>"
| "request_of (Check_workflow url token) i =
     \<lparr>req_method = ''POST'', req_url = url,
      req_headers = Some [(''Authorization'', ''Bearer '' @ token)],
      req_json = Some [(''status'', ''completed'')], req_timeout = 5\<rparr>"

fun finding_of :: "check \<Rightarrow> int \<Rightarrow> finding" where
  "finding_of (Check_exposed_route url) i =
     \<lparr>type = ''EXPOSED_ROUTE'', endpoint = url, risk = ''HIGH''\<rparr>"
| "finding_of (Check_missing_auth url) i =
     \<lparr>type = ''MISSING_AUTH'', endpoint = url, risk = ''CRITICAL''\<rparr>"
| "finding_of (Check_idor base token) i =
     \<lparr>type = ''IDOR'', endpoint = base @ ''?id='' @ str i, risk = ''CRITICAL''\<rparr>"
| "finding_of (Check_privilege url token) i =
     \<lparr>type = ''PRIVILEGE_ESCALATION'', endpoint = url, risk = ''CRITICAL''\<rparr>"
| "finding_of (Check_workflow url token) i =
     \<lparr>type = ''WORKFLOW_BYPASS'', endpoint = url, risk = ''HIGH''\<rparr>"

text \<open>The loop index of the first request of a check, and the indices after \<open>i\<close>.\<close>

fun first_round :: "check \<Rightarrow> int" where
  "first_round (Check_idor _ _) = 1"
| "first_round _ = 0"

fun later_rounds :: "check \<Rightarrow> int \<Rightarrow> int list" where
  "later_rounds (Check_idor _ _) i = [i + 1..5]"
| "later_rounds _ i = []"

definition hits :: "(request \<Rightarrow> int option) \<Rightarrow> check \<Rightarrow> int list \<Rightarrow> finding multiset" where
  "hits st chk rounds =
     mset (map (finding_of chk) (filter (\<lambda>i. st (request_of chk i) = Some 200) rounds))"

text \<open>
  The findings a task is still going to record when the network answers every request
  with the status \<open>st\<close> gives and nothing stops the task.
\<close>

fun due :: "(request \<Rightarrow> int option) \<Rightarrow> coroutine \<Rightarrow> finding multiset" where
  "due st (Sleeping chk) = hits st chk (first_round chk # later_rounds chk (first_round chk))"
| "due st (InFetch chk i r) =
     (if fst r = Some 200 then {#finding_of chk i#} else {#}) + hits st chk (later_rounds chk i)"
| "due st Returned = {#}"

text \<open>The number of CRITICAL findings in a multiset of findings.\<close>

definition critical_in :: "finding multiset \<Rightarrow> nat" where
  "critical_in M = size (filter_mset (\<lambda>f. risk f = ''CRITICAL'') M)"

section \<open>Sample runs\<close>

text \<open>
  Sample runs: a server that answers 200 to everything, a network that is down, and a
  schedule that gives each of the ten tasks six turns, round robin.
\<close>

definition demo_ok :: "request \<Rightarrow> reply" where
  "demo_ok req = Response 200 ''ok''"

definition demo_down :: "request \<Rightarrow> reply" where
  "demo_down req = Raised"

text \<open>
  A sample server for the end-to-end scenario: 200 for a GET of the admin route and of
  the report, 404 otherwise.
\<close>

definition scenario_oracle :: "request \<Rightarrow> reply" where
  "scenario_oracle req =
     (if req_method req = ''GET''
         \<and> (req_url req = ''https://t.example/admin''
            \<or> req_url req = ''https://t.example/api/internal/report'')
      then Response 200 ''ok'' else Response 404 ''not found'')"

definition demo_turns :: "nat list" where
  "demo_turns = concat (replicate 6 [0, 1, 2, 3, 4, 5, 6, 7, 8, 9])"

definition demo_events :: "(request \<Rightarrow> reply) \<Rightarrow> event list" where
  "demo_events session = map (\<lambda>k. (k, session)) demo_turns"

definition demo_scan :: "(request \<Rightarrow> reply) \<Rightarrow> config" where
  "demo_scan session = gather (demo_events session) (scan_start ''https://t.example'' ''X'' initial_state)"

definition critical_finding :: finding where
  "critical_finding = \<lparr>type = ''MISSING_AUTH'', endpoint = ''https://t.example/api/admin'', risk = ''CRITICAL''\<rparr>"

text \<open>
  A sample run of \<open>check_idor\<close> alone: a server that answers 200 for ids 1 and 2 and 403
  otherwise.
\<close>

definition idor_oracle :: "request \<Rightarrow> reply" where
  "idor_oracle req =
     (if req_url req = ''https://t.example/api/user/profile?id=1''
         \<or> req_url req = ''https://t.example/api/user/profile?id=2''
      then Response 200 ''profile'' else Response 403 ''forbidden'')"

definition idor_alone :: config where
  "idor_alone =
     \<lparr>findings = [], critical_count = 0, stop_scan = False, logic_graph = Map.empty, sent = [],
      tasks = [waf_guarded (Check_idor ''https://t.example/api/user/profile'' ''X'')]\<rparr>"

section \<open>The operations, field by field\<close>

lemma add_finding_fields [simp]:
  "findings (add_finding f s) = findings s @ [f]"
  "critical_count (add_finding f s) = critical_count s + (if risk f = ''CRITICAL'' then 1 else 0)"
  "stop_scan (add_finding f s) =
     (stop_scan s \<or> 2 \<le> critical_count s + (if risk f = ''CRITICAL'' then 1 else 0))"
  "logic_graph (add_finding f s) = logic_graph s"
  "scan_state.more (add_finding f s) = scan_state.more s"
  by (simp_all add: add_finding_def Let_def CRITICAL_STOP_THRESHOLD_def)

lemma add_finding_config [simp]:
  "sent (add_finding f c) = sent c" "tasks (add_finding f c) = tasks c"
  by (simp_all add: add_finding_def Let_def)

lemma correlate_fields [simp]:
  "findings (correlate a b s) = findings s"
  "critical_count (correlate a b s) = critical_count s"
  "stop_scan (correlate a b s) = stop_scan s"
  "logic_graph (correlate a b s) =
     (logic_graph s)(a \<mapsto> (case logic_graph s a of None \<Rightarrow> [] | Some l \<Rightarrow> l) @ [b])"
  "scan_state.more (correlate a b s) = scan_state.more s"
  by (simp_all add: correlate_def)

lemma correlate_config [simp]:
  "sent (correlate a b c) = sent c" "tasks (correlate a b c) = tasks c"
  by (simp_all add: correlate_def)

lemma fetch_fields [simp]:
  "findings (snd (fetch s m u h j c)) = findings c"
  "critical_count (snd (fetch s m u h j c)) = critical_count c"
  "stop_scan (snd (fetch s m u h j c)) = stop_scan c"
  "logic_graph (snd (fetch s m u h j c)) = logic_graph c"
  "tasks (snd (fetch s m u h j c)) = tasks c"
  "sent  (snd (fetch s m u h j c)) = sent c @ [\<lparr>req_method = m, req_url = u, req_headers = h,
                 req_json = j, req_timeout = 5\<rparr>]"
  by (simp_all add: fetch_def Let_def TIMEOUT_def)

lemma fetch_eq:
  "fetch session m u h j c =
     (case session \<lparr>req_method = m, req_url = u, req_headers = h, req_json = j, req_timeout = 5\<rparr> of
        Response status text \<Rightarrow> (Some status, Some text) | Raised \<Rightarrow> (None, None),
      c\<lparr>sent := sent c @ [\<lparr>req_method = m, req_url = u, req_headers = h, req_json = j, req_timeout = 5\<rparr>]\<rparr>)"
  by (simp add: fetch_def Let_def TIMEOUT_def)

lemma fetch_status:
  "fst (fst (fetch s m u h j c))
     = status_of (s \<lparr>req_method = m, req_url = u, req_headers = h, req_json = j, req_timeout = 5\<rparr>)"
  by (simp add: fetch_eq status_of_def split: reply.splits)

lemma fetch_200:
  "session \<lparr>req_method = m, req_url = u, req_headers = h, req_json = j, req_timeout = 5\<rparr>
     = Response 200 body \<Longrightarrow>
   fst (fetch session m u h j c) = (Some 200, Some body)"
  by (simp add: fetch_eq)

lemma globals_fields [simp]:
  "findings (globals c) = findings c" "critical_count (globals c) = critical_count c"
  "stop_scan (globals c) = stop_scan c" "logic_graph (globals c) = logic_graph c"
  by (simp_all add: globals_def)

lemma globals_add_finding [simp]: "globals (add_finding f c) = add_finding f (globals c)"
  by (simp add: globals_def add_finding_def Let_def)

lemma globals_correlate [simp]: "globals (correlate a b c) = correlate a b (globals c)"
  by (simp add: globals_def correlate_def)

lemma globals_fetch [simp]: "globals (snd (fetch s m u h j c)) = globals c"
  by (simp add: globals_def)

lemma globals_tasks_update [simp]: "globals (c\<lparr>tasks := ts\<rparr>) = globals c"
  by (simp add: globals_def)

lemma check_idor_loop_globals [simp]:
  "globals (snd (check_idor_loop s b h i c)) = globals c"
  by (simp add: check_idor_loop_def Let_def split_def)

lemma check_idor_loop_tasks [simp]: "tasks (snd (check_idor_loop s b h i c)) = tasks c"
  by (simp add: check_idor_loop_def Let_def split_def)

lemma check_idor_loop_cases:
  "check_idor_loop s b h i c =
     (if i < 6 \<and> \<not> stop_scan c
      then (Some (i, fst (fetch s ''GET'' (b @ ''?id='' @ str i) (Some h) None c)),
            snd (fetch s ''GET'' (b @ ''?id='' @ str i) (Some h) None c))
      else (None, c))"
  by (simp add: check_idor_loop_def Let_def split_def)

lemma initial_fields [simp]:
  "findings initial_state = []" "critical_count initial_state = 0"
  "stop_scan initial_state = False" "logic_graph initial_state = Map.empty"
  by (simp_all add: initial_state_def)

lemma scan_start_fields [simp]:
  "findings (scan_start b t g) = findings g" "critical_count (scan_start b t g) = critical_count g"
  "stop_scan (scan_start b t g) = stop_scan g" "logic_graph (scan_start b t g) = logic_graph g"
  "sent (scan_start b t g) = []" "tasks (scan_start b t g) = scan_tasks b t"
  by (simp_all add: scan_start_def)

lemma globals_scan_start [simp]: "globals (scan_start b t g) = g"
  by (simp add: globals_def scan_start_def)

lemma scan_tasks_length [simp]: "length (scan_tasks b t) = 10"
  by (simp add: scan_tasks_def exposed_def missing_auth_def admin_eps_def)

lemma str_digits [simp]:
  "str 1 = ''1''" "str 2 = ''2''" "str 3 = ''3''" "str 4 = ''4''" "str 5 = ''5''"
  by (simp_all add: str_def str_nat.simps digit_def)

lemma count_critical_simps [simp]:
  "count_critical [] = 0"
  "count_critical (fs @ [f]) = count_critical fs + (if risk f = ''CRITICAL'' then 1 else 0)"
  by (simp_all add: count_critical_def)

lemma count_type_simps [simp]:
  "count_type t [] = 0"
  "count_type t (fs @ [f]) = count_type t fs + (if type f = t then 1 else 0)"
  by (simp_all add: count_type_def)

lemma suspend_snd [simp]: "snd (suspend chk res) = snd res"
  by (cases res) (auto simp: suspend_def split: option.splits)

section \<open>One turn of a task, and a schedule of turns\<close>

lemma run_check_records: "records (globals c) (globals (snd (run_check s chk at c)))"
  by (cases chk; cases at)
     (auto simp: run_check_def check_exposed_route_def check_missing_auth_def check_idor_def
        check_privilege_def check_workflow_def Let_def split_def intro: records.intros)

lemma resume_task_records: "records (globals c) (globals (snd (resume_task s co c)))"
  by (cases co) (simp_all add: resume_task_def run_check_records records.nothing)

lemma step_records: "records (globals c) (globals (step ev c))"
  by (cases ev) (simp add: step_def split_def Let_def resume_task_records records.nothing)

lemma run_check_tasks [simp]: "tasks (snd (run_check s chk at c)) = tasks c"
  by (cases chk; cases at)
     (simp_all add: run_check_def check_exposed_route_def check_missing_auth_def check_idor_def
        check_privilege_def check_workflow_def Let_def split_def)

lemma resume_task_tasks [simp]: "tasks (snd (resume_task s co c)) = tasks c"
  by (cases co) (simp_all add: resume_task_def)

lemma step_returned:
  assumes "k < length (tasks c)" and "tasks c ! k = Returned"
  shows "step (k, session) c = c"
proof -
  have "(tasks c)[k := Returned] = tasks c"
    using assms(2) list_update_id [of "tasks c" k] by simp
  then show ?thesis
    using assms(1,2) by (simp add: step_def resume_task_def)
qed

lemma gather_induct:
  assumes "P (globals c)" and "\<And>g g'. P g \<Longrightarrow> records g g' \<Longrightarrow> P g'"
  shows "P (globals (gather evs c))"
  using assms(1)
proof (induction evs arbitrary: c)
  case Nil
  then show ?case by simp
next
  case (Cons ev evs)
  have "P (globals (step ev c))"
    using assms(2) [OF Cons.prems step_records] .
  then show ?case using Cons.IH by simp
qed

lemma termul_full_async_Some:
  "termul_full_async b t evs g = Some c \<Longrightarrow> c = gather evs (scan_start b t g) \<and> finished c"
  by (simp add: termul_full_async_def Let_def split: if_splits)

section \<open>The sample runs, evaluated\<close>

lemma demo_ok_finished: "finished (demo_scan demo_ok)"
  by code_simp

lemma demo_ok_Some:
  "termul_full_async ''https://t.example'' ''X'' (demo_events demo_ok) initial_state
     = Some (demo_scan demo_ok)"
  using demo_ok_finished by (simp add: termul_full_async_def demo_scan_def)

lemma demo_ok_critical_count: "critical_count (demo_scan demo_ok) = 5"
  by code_simp

lemma demo_ok_stop: "stop_scan (demo_scan demo_ok)"
  by code_simp

lemma demo_ok_graph: 
  "logic_graph (demo_scan demo_ok) ''IDOR'' = Some [''DATA_DISCLOSURE'']"
  "logic_graph (demo_scan demo_ok) ''PRIVILEGE_ESCALATION'' = Some [''ADMIN_ACTION'', ''ADMIN_ACTION'']"
  "logic_graph (demo_scan demo_ok) ''WORKFLOW_BYPASS'' = Some [''FINANCIAL_IMPACT'']"
  by code_simp+

lemma demo_ok_count_type:
  "count_type ''IDOR'' (findings (demo_scan demo_ok)) = 1"
  "count_type ''PRIVILEGE_ESCALATION'' (findings (demo_scan demo_ok)) = 2"
  "count_type ''WORKFLOW_BYPASS'' (findings (demo_scan demo_ok)) = 1"
  by code_simp+

lemma demo_ok_lengths:
  "length (sent (demo_scan demo_ok)) = 10" "length (findings (demo_scan demo_ok)) = 10"
  by code_simp+

lemma one_critical:
  "critical_count (fold add_finding [critical_finding] initial_state) = 1"
  "\<not> stop_scan (fold add_finding [critical_finding] initial_state)"
  by (simp_all add: critical_finding_def)

lemma two_critical:
  "critical_count (fold add_finding [critical_finding, critical_finding] initial_state) = 2"
  "stop_scan (fold add_finding [critical_finding, critical_finding] initial_state)"
  by (simp_all add: critical_finding_def)

lemma demo_turns_counts:
  "map (count_list (map fst (demo_events session))) [0..<10] = replicate 10 6"
proof -
  have "map fst (demo_events session) = demo_turns"
    by (simp add: demo_events_def comp_def)
  moreover have "map (count_list demo_turns) [0..<10] = replicate 10 6"
    by code_simp
  ultimately show ?thesis by simp
qed

lemma demo_turns_fair: "j < 10 \<Longrightarrow> 6 \<le> count_list (map fst (demo_events session)) j"
proof -
  have "map fst (demo_events session) = demo_turns"
    by (simp add: demo_events_def comp_def)
  moreover have "\<forall>j<10. 6 \<le> count_list demo_turns j"
    by code_simp
  moreover assume "j < 10"
  ultimately show ?thesis by simp
qed

lemma scenario_findings:
  "findings (demo_scan scenario_oracle) =
     [\<lparr>type = ''EXPOSED_ROUTE'', endpoint = ''https://t.example/admin'', risk = ''HIGH''\<rparr>,
      \<lparr>type = ''MISSING_AUTH'', endpoint = ''https://t.example/api/internal/report'',
        risk = ''CRITICAL''\<rparr>]"
  by code_simp

section \<open>The critical counter (C1)\<close>

lemma records_I1:
  "records g g' \<Longrightarrow> critical_count g = count_critical (findings g) \<Longrightarrow>
   critical_count g' = count_critical (findings g')"
  by (induction rule: records.induct) simp_all

lemma gather_I1:
  assumes "critical_count c = count_critical (findings c)"
  shows "critical_count (gather evs c) = count_critical (findings (gather evs c))"
proof -
  have "critical_count (globals (gather evs c)) = count_critical (findings (globals (gather evs c)))"
    by (rule gather_induct [where P = "\<lambda>g. critical_count g = count_critical (findings g)"])
       (use assms in \<open>simp_all add: records_I1\<close>)
  then show ?thesis by simp
qed

lemma step_I1:
  "critical_count c = count_critical (findings c) \<Longrightarrow>
   critical_count (step ev c) = count_critical (findings (step ev c))"
  using records_I1 [OF step_records [of c ev]] by simp

lemma fold_add_finding_I1:
  "critical_count s = count_critical (findings s) \<Longrightarrow>
   critical_count (fold add_finding fs s) = count_critical (findings (fold add_finding fs s))"
  by (induction fs arbitrary: s) simp_all

text \<open>
  C1 (invariant I1). \<open>critical_count\<close> equals the number of findings whose risk is
  \<open>CRITICAL\<close>: after any sequence of \<open>add_finding\<close> calls from the initial globals;
  after one more call from any state where it held; in every state a scan reaches under
  any schedule and any network behaviour; and so in the state \<open>termul_full_async\<close>
  ends in.
\<close>
theorem critical_count_matches_findings:
  "critical_count (fold add_finding fs initial_state)
     = count_critical (findings (fold add_finding fs initial_state))
   \<and> (critical_count s = count_critical (findings s) \<longrightarrow>
        critical_count (add_finding f s) = count_critical (findings (add_finding f s)))
   \<and> critical_count (gather evs (scan_start base_url token initial_state))
       = count_critical (findings (gather evs (scan_start base_url token initial_state)))
   \<and> (termul_full_async base_url token evs initial_state = Some c \<longrightarrow>
        critical_count c = count_critical (findings c))"
proof (intro conjI impI)
  show "critical_count (fold add_finding fs initial_state)
     = count_critical (findings (fold add_finding fs initial_state))"
    by (rule fold_add_finding_I1) simp
  show "critical_count (add_finding f s) = count_critical (findings (add_finding f s))"
    if "critical_count s = count_critical (findings s)"
    using that by simp
  show *: "critical_count (gather evs (scan_start base_url token initial_state))
       = count_critical (findings (gather evs (scan_start base_url token initial_state)))"
    by (rule gather_I1) simp
  show "critical_count c = count_critical (findings c)"
    if "termul_full_async base_url token evs initial_state = Some c"
    using termul_full_async_Some [OF that] * by simp
qed

theorem critical_count_matches_findings_witness:
  "critical_count (fold add_finding [critical_finding, critical_finding] initial_state) = 2
   \<and> count_critical (findings (fold add_finding [critical_finding, critical_finding] initial_state)) = 2
   \<and> critical_count initial_state = count_critical (findings initial_state)
   \<and> critical_count (add_finding critical_finding initial_state)
       = count_critical (findings (add_finding critical_finding initial_state))
   \<and> termul_full_async ''https://t.example'' ''X'' (demo_events demo_ok) initial_state
       = Some (demo_scan demo_ok)
   \<and> critical_count (demo_scan demo_ok) = 5
   \<and> count_critical (findings (demo_scan demo_ok)) = 5"
  using critical_count_matches_findings
    [of "[critical_finding, critical_finding]" initial_state critical_finding
        "demo_events demo_ok" "''https://t.example''" "''X''" "demo_scan demo_ok"]
    demo_ok_Some demo_ok_critical_count
  by (simp add: critical_finding_def)

section \<open>The stop flag and the threshold (C2)\<close>

lemma records_I3:
  "records g g' \<Longrightarrow> stop_scan g = (2 \<le> critical_count g) \<Longrightarrow>
   stop_scan g' = (2 \<le> critical_count g')"
  by (induction rule: records.induct) auto

lemma gather_I3:
  assumes "stop_scan c = (2 \<le> critical_count c)"
  shows "stop_scan (gather evs c) = (2 \<le> critical_count (gather evs c))"
proof -
  have "stop_scan (globals (gather evs c)) = (2 \<le> critical_count (globals (gather evs c)))"
    by (rule gather_induct [where P = "\<lambda>g. stop_scan g = (2 \<le> critical_count g)"])
       (use assms in \<open>simp_all add: records_I3\<close>)
  then show ?thesis by simp
qed

lemma step_I3:
  "stop_scan c = (2 \<le> critical_count c) \<Longrightarrow>
   stop_scan (step ev c) = (2 \<le> critical_count (step ev c))"
  using records_I3 [OF step_records [of c ev]] by simp

lemma fold_add_finding_I3:
  "stop_scan s = (2 \<le> critical_count s) \<Longrightarrow>
   stop_scan (fold add_finding fs s) = (2 \<le> critical_count (fold add_finding fs s))"
proof (induction fs arbitrary: s)
  case Nil
  then show ?case by simp
next
  case (Cons f fs)
  have "stop_scan (add_finding f s) = (2 \<le> critical_count (add_finding f s))"
    using Cons.prems by auto
  from Cons.IH [OF this] show ?case by simp
qed

text \<open>
  C2 (invariant I3). In a state reached from the initial globals by \<open>add_finding\<close>
  calls, \<open>stop_scan\<close> is true exactly when \<open>critical_count\<close> has reached
  \<open>CRITICAL_STOP_THRESHOLD = 2\<close>; a call flips the flag from false to true exactly when
  it takes the counter from below the threshold to the threshold; a set flag stays set;
  and the equivalence holds in every state a scan reaches.
\<close>
theorem stop_scan_iff_threshold:
  "s = fold add_finding fs initial_state \<Longrightarrow>
     CRITICAL_STOP_THRESHOLD = 2
   \<and> stop_scan s = (CRITICAL_STOP_THRESHOLD \<le> critical_count s)
   \<and> ((\<not> stop_scan s \<and> stop_scan (add_finding f s))
        = (critical_count s < CRITICAL_STOP_THRESHOLD
           \<and> CRITICAL_STOP_THRESHOLD \<le> critical_count (add_finding f s)))
   \<and> (stop_scan s \<longrightarrow> stop_scan (add_finding f s))
   \<and> stop_scan (gather evs (scan_start base_url token initial_state))
       = (CRITICAL_STOP_THRESHOLD
            \<le> critical_count (gather evs (scan_start base_url token initial_state)))"
proof -
  assume s: "s = fold add_finding fs initial_state"
  have inv: "stop_scan s = (2 \<le> critical_count s)"
    unfolding s by (rule fold_add_finding_I3) simp
  have scan: "stop_scan (gather evs (scan_start base_url token initial_state))
       = (2 \<le> critical_count (gather evs (scan_start base_url token initial_state)))"
    by (rule gather_I3) simp
  show ?thesis
    using inv scan by (auto simp: CRITICAL_STOP_THRESHOLD_def)
qed

theorem stop_scan_iff_threshold_witness:
  "\<not> stop_scan (fold add_finding [critical_finding] initial_state)
   \<and> critical_count (fold add_finding [critical_finding] initial_state) = 1
   \<and> stop_scan (add_finding critical_finding (fold add_finding [critical_finding] initial_state))
   \<and> critical_count
        (add_finding critical_finding (fold add_finding [critical_finding] initial_state)) = 2
   \<and> stop_scan (fold add_finding [critical_finding, critical_finding] initial_state)
   \<and> stop_scan
        (add_finding critical_finding
           (fold add_finding [critical_finding, critical_finding] initial_state))
   \<and> stop_scan (demo_scan demo_ok)
   \<and> CRITICAL_STOP_THRESHOLD \<le> critical_count (demo_scan demo_ok)"
  using stop_scan_iff_threshold
    [of "fold add_finding [critical_finding] initial_state" "[critical_finding]"
        critical_finding "demo_events demo_ok" "''https://t.example''" "''X''"]
    stop_scan_iff_threshold
    [of "fold add_finding [critical_finding, critical_finding] initial_state"
        "[critical_finding, critical_finding]"
        critical_finding "demo_events demo_ok" "''https://t.example''" "''X''"]
    one_critical two_critical demo_ok_stop
  by (simp add: critical_finding_def demo_scan_def)

section \<open>The stop flag is never cleared (C3)\<close>

lemma records_stop: "records g g' \<Longrightarrow> stop_scan g \<Longrightarrow> stop_scan g'"
  by (induction rule: records.induct) auto

lemma gather_stop:
  assumes "stop_scan c"
  shows "stop_scan (gather evs c)"
proof -
  have "stop_scan (globals (gather evs c))"
    by (rule gather_induct [where P = stop_scan]) (use assms in \<open>simp_all add: records_stop\<close>)
  then show ?thesis by simp
qed

lemma run_check_stop:
  assumes "stop_scan c"
  shows "stop_scan (snd (run_check session chk at c))"
proof -
  have "stop_scan (globals c)" using assms by simp
  from records_stop [OF run_check_records this] show ?thesis by simp
qed

lemma step_stop:
  assumes "stop_scan c"
  shows "stop_scan (step ev c)"
proof -
  have "stop_scan (globals c)" using assms by simp
  from records_stop [OF step_records this] show ?thesis by simp
qed

text \<open>
  C3 (invariant I2). Once \<open>stop_scan\<close> is true, it is still true after
  \<open>add_finding\<close>, \<open>correlate\<close>, \<open>fetch\<close>, any turn of any check, any event of the
  loop and any sequence of events.
\<close>
theorem stop_scan_never_reverts:
  "stop_scan c \<Longrightarrow>
     stop_scan (add_finding f c) \<and> stop_scan (correlate source target c)
   \<and> stop_scan (snd (fetch session verb url headers json c))
   \<and> stop_scan (snd (run_check session chk at c))
   \<and> stop_scan (step ev c)
   \<and> stop_scan (gather evs c)"
  by (simp add: run_check_stop step_stop gather_stop)

theorem stop_scan_never_reverts_witness:
  "stop_scan (demo_scan demo_ok)
   \<and> stop_scan (add_finding critical_finding (demo_scan demo_ok))
   \<and> stop_scan (correlate ''IDOR'' ''DATA_DISCLOSURE'' (demo_scan demo_ok))
   \<and> stop_scan (snd (fetch demo_down ''GET'' ''https://t.example/admin'' None None
                        (demo_scan demo_ok)))
   \<and> stop_scan (snd (run_check demo_down (Check_missing_auth ''https://t.example/api/admin'')
                        (After 0 (Some 200, Some ''ok'')) (demo_scan demo_ok)))
   \<and> stop_scan (step (0, demo_ok) (demo_scan demo_ok))
   \<and> stop_scan (gather (demo_events demo_ok) (demo_scan demo_ok))"
  using stop_scan_never_reverts
    [where c = "demo_scan demo_ok" and f = critical_finding and source = "''IDOR''"
       and target = "''DATA_DISCLOSURE''" and session = demo_down and verb = "''GET''"
       and url = "''https://t.example/admin''" and headers = None and json = None
       and chk = "Check_missing_auth ''https://t.example/api/admin''"
       and at = "After 0 (Some 200, Some ''ok'')" and ev = "(0, demo_ok)"
       and evs = "demo_events demo_ok"]
    demo_ok_stop
  by simp

section \<open>A stopped scan skips the checks (C4)\<close>

lemma entry_stopped:
  assumes "stop_scan c"
  shows "check_exposed_route session url Entry c = (None, c)"
    and "check_missing_auth session url Entry c = (None, c)"
    and "check_idor_loop session base headers i c = (None, c)"
    and "check_idor session base token Entry c = (None, c)"
    and "check_privilege session url token Entry c = (None, c)"
    and "check_workflow session url token Entry c = (None, c)"
  using assms
  by (simp_all add: check_exposed_route_def check_missing_auth_def check_idor_def
        check_idor_loop_def check_privilege_def check_workflow_def Let_def)

lemma run_check_entry_stopped: "stop_scan c \<Longrightarrow> run_check session chk Entry c = (None, c)"
  by (cases chk) (simp_all add: run_check_def entry_stopped)

lemma resume_task_sleeping_stopped:
  "stop_scan c \<Longrightarrow> resume_task session (Sleeping chk) c = (Returned, c)"
  by (simp add: resume_task_def run_check_entry_stopped suspend_def)

lemma check_idor_after_stopped:
  assumes "stop_scan c"
  shows "fst (check_idor session base token (After i r) c) = None"
    and "sent (snd (check_idor session base token (After i r) c)) = sent c"
  using assms by (cases r; simp add: check_idor_def Let_def entry_stopped)+

text \<open>
  C4. With \<open>stop_scan\<close> true, each of the five checks entered from its first line
  returns at once and leaves the whole state as it was: globals, request log and tasks
  (so no request is made, no finding recorded, no edge added); so does the head of the
  loop of \<open>check_idor\<close> at every index \<open>i\<close>. A sleeping task that wakes up returns in that
  turn. When \<open>check_idor\<close> is resumed from a pending \<open>fetch\<close>, it returns in that turn
  without a further request. A returned task does nothing in any later turn.
\<close>
theorem stopped_check_returns_at_once:
  "stop_scan c \<Longrightarrow>
     check_exposed_route session url Entry c = (None, c)
   \<and> check_missing_auth session url Entry c = (None, c)
   \<and> check_idor session base token Entry c = (None, c)
   \<and> check_idor_loop session base headers i c = (None, c)
   \<and> check_privilege session url token Entry c = (None, c)
   \<and> check_workflow session url token Entry c = (None, c)
   \<and> resume_task session (Sleeping chk) c = (Returned, c)
   \<and> fst (check_idor session base token (After i r) c) = None
   \<and> sent (snd (check_idor session base token (After i r) c)) = sent c
   \<and> resume_task session Returned c = (Returned, c)"
  by (intro conjI)
     (simp_all only: entry_stopped resume_task_sleeping_stopped check_idor_after_stopped,
      simp add: resume_task_def)

theorem stopped_check_returns_at_once_witness:
  "stop_scan (demo_scan demo_ok)
   \<and> check_exposed_route demo_ok ''https://t.example/admin'' Entry (demo_scan demo_ok)
       = (None, demo_scan demo_ok)
   \<and> check_missing_auth demo_ok ''https://t.example/admin'' Entry (demo_scan demo_ok)
       = (None, demo_scan demo_ok)
   \<and> check_idor demo_ok ''https://t.example/api/user/profile'' ''X'' Entry (demo_scan demo_ok)
       = (None, demo_scan demo_ok)
   \<and> check_idor_loop demo_ok ''https://t.example/api/user/profile''
        [(''Authorization'', ''Bearer X'')] 3 (demo_scan demo_ok)
       = (None, demo_scan demo_ok)
   \<and> check_privilege demo_ok ''https://t.example/admin'' ''X'' Entry (demo_scan demo_ok)
       = (None, demo_scan demo_ok)
   \<and> check_workflow demo_ok ''https://t.example/admin'' ''X'' Entry (demo_scan demo_ok)
       = (None, demo_scan demo_ok)
   \<and> resume_task demo_ok (Sleeping (Check_workflow ''https://t.example/admin'' ''X''))
        (demo_scan demo_ok)
       = (Returned, demo_scan demo_ok)
   \<and> fst (check_idor demo_ok ''https://t.example/api/user/profile'' ''X''
             (After 3 (Some 200, Some ''ok'')) (demo_scan demo_ok)) = None
   \<and> sent (snd (check_idor demo_ok ''https://t.example/api/user/profile'' ''X''
                   (After 3 (Some 200, Some ''ok'')) (demo_scan demo_ok)))
       = sent (demo_scan demo_ok)
   \<and> resume_task demo_ok Returned (demo_scan demo_ok) = (Returned, demo_scan demo_ok)"
  using stopped_check_returns_at_once
    [where c = "demo_scan demo_ok" and session = demo_ok and url = "''https://t.example/admin''"
       and base = "''https://t.example/api/user/profile''" and token = "''X''"
       and headers = "[(''Authorization'', ''Bearer X'')]" and i = 3
       and chk = "Check_workflow ''https://t.example/admin'' ''X''" and r = "(Some 200, Some ''ok'')"]
    demo_ok_stop
  by simp

section \<open>A failed request (C5)\<close>

text \<open>
  C5. For every method, url, headers and body: when the request raises (whatever is
  raised), \<open>fetch\<close> returns the pair \<open>(None, None)\<close> as an ordinary value, and the request
  log has grown by that one request only: one attempt, no retry.
\<close>
theorem fetch_failure_is_none_none:
  "session \<lparr>req_method = method, req_url = url, req_headers = headers, req_json = json,
            req_timeout = TIMEOUT\<rparr> = Raised \<Longrightarrow>
   fetch session method url headers json c =
     ((None, None),
      c\<lparr>sent := sent c @ [\<lparr>req_method = method, req_url = url, req_headers = headers,
                            req_json = json, req_timeout = TIMEOUT\<rparr>]\<rparr>)"
  by (simp add: fetch_def Let_def)

theorem fetch_failure_is_none_none_witness:
  "demo_down \<lparr>req_method = ''GET'', req_url = ''https://t.example/admin'', req_headers = None,
              req_json = None, req_timeout = TIMEOUT\<rparr> = Raised
   \<and> fetch demo_down ''GET'' ''https://t.example/admin'' None None
        (scan_start ''https://t.example'' ''X'' initial_state)
     = ((None, None),
        (scan_start ''https://t.example'' ''X'' initial_state)
          \<lparr>sent := [\<lparr>req_method = ''GET'', req_url = ''https://t.example/admin'',
                      req_headers = None, req_json = None, req_timeout = TIMEOUT\<rparr>]\<rparr>)"
  using fetch_failure_is_none_none
    [of demo_down "''GET''" "''https://t.example/admin''" None None
        "scan_start ''https://t.example'' ''X'' initial_state"]
  by (simp add: demo_down_def)

section \<open>The IDOR check on its own (C6)\<close>

lemma gather_returned:
  "tasks c = [Returned] \<Longrightarrow> gather (replicate m (0, session)) c = c"
  by (induction m) (simp_all add: step_returned)

lemma step_single:
  "tasks c = [co] \<Longrightarrow>
   step (0, session) c =
     (snd (resume_task session co c))\<lparr>tasks := [fst (resume_task session co c)]\<rparr>"
  by (simp add: step_def split_def Let_def)

lemma idor_alone_first:
  assumes "tasks c = [waf_guarded (Check_idor base token)]" and "\<not> stop_scan c"
  shows "step (0, session) c =
     c\<lparr>sent := sent c @ [idor_request base token ''1''],
       tasks := [InFetch (Check_idor base token) 1
                   (fst (fetch session ''GET'' (base @ ''?id=1'')
                           (Some [(''Authorization'', ''Bearer '' @ token)]) None c))]\<rparr>"
  using assms
  by (simp add: step_single waf_guarded_def resume_task_def run_check_def check_idor_def
        check_idor_loop_def suspend_def fetch_eq idor_request_def Let_def)

lemma idor_alone_second:
  assumes "tasks c = [InFetch (Check_idor base token) 1 (Some 200, body)]"
    and "critical_count c = 0" and "\<not> stop_scan c"
  shows "step (0, session) c =
     (correlate ''IDOR'' ''DATA_DISCLOSURE'' (add_finding (idor_finding base ''1'') c))
      \<lparr>sent := sent c @ [idor_request base token ''2''],
       tasks := [InFetch (Check_idor base token) 2
                   (fst (fetch session ''GET'' (base @ ''?id=2'')
                           (Some [(''Authorization'', ''Bearer '' @ token)]) None c))]\<rparr>"
  using assms
  by (simp add: step_single resume_task_def run_check_def check_idor_def
        check_idor_loop_def suspend_def fetch_eq idor_request_def idor_finding_def Let_def)

lemma idor_alone_third:
  assumes "tasks c = [InFetch (Check_idor base token) 2 (Some 200, body)]"
    and "critical_count c = 1"
  shows "step (0, session) c =
     (correlate ''IDOR'' ''DATA_DISCLOSURE'' (add_finding (idor_finding base ''2'') c))
      \<lparr>tasks := [Returned]\<rparr>"
  using assms
  by (simp add: step_single resume_task_def run_check_def check_idor_def
        check_idor_loop_def suspend_def idor_finding_def Let_def)

text \<open>
  C6. \<open>check_idor\<close> run on its own (the only task of the loop) from a state with no
  critical finding and \<open>stop_scan\<close> false, against a network that answers 200 for ids 1
  and 2, whatever it would answer for ids 3, 4 and 5: once the task has had its three
  turns (and however many more), it has returned; it has recorded exactly the two
  CRITICAL IDOR findings for ids 1 and 2, in that order, and added exactly two
  \<open>DATA_DISCLOSURE\<close> edges under \<open>IDOR\<close>; \<open>critical_count\<close> is 2 and \<open>stop_scan\<close> is
  true; and the only requests made are those for ids 1 and 2.
\<close>
theorem idor_two_hits_then_stops:
  assumes "tasks c = [waf_guarded (Check_idor base token)]"
    and "critical_count c = 0" and "\<not> stop_scan c"
    and "session (idor_request base token ''1'') = Response 200 body1"
    and "session (idor_request base token ''2'') = Response 200 body2"
    and "c' = gather (replicate (3 + m) (0, session)) c"
  shows "tasks c' = [Returned]
       \<and> findings c' = findings c @ [idor_finding base ''1'', idor_finding base ''2'']
       \<and> logic_graph c' = (logic_graph c)
            (''IDOR'' \<mapsto> (case logic_graph c ''IDOR'' of None \<Rightarrow> [] | Some l \<Rightarrow> l)
                           @ [''DATA_DISCLOSURE'', ''DATA_DISCLOSURE''])
       \<and> critical_count c' = 2 \<and> stop_scan c'
       \<and> sent c' = sent c @ [idor_request base token ''1'', idor_request base token ''2'']"
proof -
  let ?h = "Some [(''Authorization'', ''Bearer '' @ token)]"
  define c1 where "c1 = step (0, session) c"
  define c2 where "c2 = step (0, session) c1"
  define c3 where "c3 = step (0, session) c2"
  have r1: "fst (fetch session ''GET'' (base @ ''?id=1'') ?h None c) = (Some 200, Some body1)"
    using assms(4) by (simp add: fetch_200 idor_request_def)
  have s1: "c1 = c\<lparr>sent := sent c @ [idor_request base token ''1''],
       tasks := [InFetch (Check_idor base token) 1 (Some 200, Some body1)]\<rparr>"
    unfolding c1_def using idor_alone_first [OF assms(1,3), of session] r1 by simp
  have r2: "fst (fetch session ''GET'' (base @ ''?id=2'') ?h None c1) = (Some 200, Some body2)"
    using assms(5) by (simp add: fetch_200 idor_request_def)
  have s2: "c2 = (correlate ''IDOR'' ''DATA_DISCLOSURE'' (add_finding (idor_finding base ''1'') c1))
      \<lparr>sent := sent c1 @ [idor_request base token ''2''],
       tasks := [InFetch (Check_idor base token) 2 (Some 200, Some body2)]\<rparr>"
    unfolding c2_def
    using idor_alone_second [of c1 base token "Some body1" session] r2 assms(2,3)
    by (simp add: s1)
  have s3: "c3 = (correlate ''IDOR'' ''DATA_DISCLOSURE'' (add_finding (idor_finding base ''2'') c2))
      \<lparr>tasks := [Returned]\<rparr>"
    unfolding c3_def
    using idor_alone_third [of c2 base token "Some body2" session] assms(2)
    by (simp add: s2 s1 idor_finding_def)
  have "c' = gather (replicate m (0, session)) c3"
    unfolding assms(6) c3_def c2_def c1_def
    by (simp add: numeral_3_eq_3)
  also have "\<dots> = c3"
    by (rule gather_returned) (simp add: s3)
  finally have c': "c' = c3" .
  show ?thesis
    unfolding c' s3 s2 s1 using assms(2,3)
    by (simp add: idor_finding_def)
qed

theorem idor_two_hits_then_stops_witness:
  "tasks idor_alone = [waf_guarded (Check_idor ''https://t.example/api/user/profile'' ''X'')]
   \<and> critical_count idor_alone = 0 \<and> \<not> stop_scan idor_alone
   \<and> idor_oracle (idor_request ''https://t.example/api/user/profile'' ''X'' ''1'')
       = Response 200 ''profile''
   \<and> idor_oracle (idor_request ''https://t.example/api/user/profile'' ''X'' ''2'')
       = Response 200 ''profile''
   \<and> tasks (gather (replicate 5 (0, idor_oracle)) idor_alone) = [Returned]
   \<and> findings (gather (replicate 5 (0, idor_oracle)) idor_alone)
       = [\<lparr>type = ''IDOR'', endpoint = ''https://t.example/api/user/profile?id=1'',
            risk = ''CRITICAL''\<rparr>,
          \<lparr>type = ''IDOR'', endpoint = ''https://t.example/api/user/profile?id=2'',
            risk = ''CRITICAL''\<rparr>]
   \<and> logic_graph (gather (replicate 5 (0, idor_oracle)) idor_alone) ''IDOR''
       = Some [''DATA_DISCLOSURE'', ''DATA_DISCLOSURE'']
   \<and> critical_count (gather (replicate 5 (0, idor_oracle)) idor_alone) = 2
   \<and> stop_scan (gather (replicate 5 (0, idor_oracle)) idor_alone)
   \<and> map req_url (sent (gather (replicate 5 (0, idor_oracle)) idor_alone))
       = [''https://t.example/api/user/profile?id=1'',
          ''https://t.example/api/user/profile?id=2'']"
  using idor_two_hits_then_stops
    [of idor_alone "''https://t.example/api/user/profile''" "''X''" idor_oracle
        "''profile''" "''profile''" "gather (replicate 5 (0, idor_oracle)) idor_alone" 2]
  by (simp add: idor_alone_def idor_oracle_def idor_request_def idor_finding_def)

section \<open>The correlation graph (C9)\<close>

lemma expected_graph_other:
  "impact (type f) = None \<Longrightarrow> expected_graph (fs @ [f]) = expected_graph fs"
  by (rule ext) (auto simp: expected_graph_def split: option.splits)

lemma expected_graph_linked:
  assumes "impact (type f) = Some t" and "logic_graph g = expected_graph fs"
  shows "(logic_graph g)(type f \<mapsto> (case logic_graph g (type f) of None \<Rightarrow> [] | Some l \<Rightarrow> l) @ [t])
           = expected_graph (fs @ [f])"
proof (rule ext)
  fix k
  show "((logic_graph g)(type f \<mapsto> (case logic_graph g (type f) of None \<Rightarrow> [] | Some l \<Rightarrow> l) @ [t])) k
           = expected_graph (fs @ [f]) k"
  proof (cases "k = type f")
    case True
    then show ?thesis
      using assms by (simp add: expected_graph_def replicate_append_same)
  next
    case False
    then show ?thesis
      using assms by (simp add: expected_graph_def split: option.splits)
  qed
qed

lemma records_graph:
  "records g g' \<Longrightarrow> logic_graph g = expected_graph (findings g) \<Longrightarrow>
   logic_graph g' = expected_graph (findings g')"
proof (induction rule: records.induct)
  case (nothing g)
  then show ?case by simp
next
  case (exposed_route g u)
  then show ?case by (simp add: expected_graph_other impact_def)
next
  case (missing_auth g u)
  then show ?case by (simp add: expected_graph_other impact_def)
next
  case (idor g u)
  then show ?case
    using expected_graph_linked
      [of "\<lparr>type = ''IDOR'', endpoint = u, risk = ''CRITICAL''\<rparr>" "''DATA_DISCLOSURE''" g "findings g"]
    by (simp add: impact_def)
next
  case (privilege g u)
  then show ?case
    using expected_graph_linked
      [of "\<lparr>type = ''PRIVILEGE_ESCALATION'', endpoint = u, risk = ''CRITICAL''\<rparr>" "''ADMIN_ACTION''"
          g "findings g"]
    by (simp add: impact_def)
next
  case (workflow g u)
  then show ?case
    using expected_graph_linked
      [of "\<lparr>type = ''WORKFLOW_BYPASS'', endpoint = u, risk = ''HIGH''\<rparr>" "''FINANCIAL_IMPACT''"
          g "findings g"]
    by (simp add: impact_def)
qed

lemma gather_graph:
  assumes "logic_graph c = expected_graph (findings c)"
  shows "logic_graph (gather evs c) = expected_graph (findings (gather evs c))"
proof -
  have "logic_graph (globals (gather evs c)) = expected_graph (findings (globals (gather evs c)))"
    by (rule gather_induct [where P = "\<lambda>g. logic_graph g = expected_graph (findings g)"])
       (use assms in \<open>simp_all add: records_graph\<close>)
  then show ?thesis by simp
qed

lemma expected_graph_Nil [simp]: "expected_graph [] = Map.empty"
  by (rule ext) (simp add: expected_graph_def split: option.splits)

lemma expected_graph_Some:
  assumes "expected_graph fs k = Some l"
  shows "k \<in> {''IDOR'', ''PRIVILEGE_ESCALATION'', ''WORKFLOW_BYPASS''}"
    and "length l = count_type k fs"
    and "k = ''IDOR'' \<Longrightarrow> set l = {''DATA_DISCLOSURE''}"
    and "k = ''PRIVILEGE_ESCALATION'' \<Longrightarrow> set l = {''ADMIN_ACTION''}"
    and "k = ''WORKFLOW_BYPASS'' \<Longrightarrow> set l = {''FINANCIAL_IMPACT''}"
  using assms
  by (auto simp: expected_graph_def impact_def split: option.splits if_splits)

text \<open>
  C9. In every state a scan started from the initial globals reaches between two turns
  of the event loop, the keys of \<open>logic_graph\<close> are among \<open>IDOR\<close>,
  \<open>PRIVILEGE_ESCALATION\<close> and \<open>WORKFLOW_BYPASS\<close>, the edge list of a key is as long as
  the number of findings of that type, and its edges are all \<open>DATA_DISCLOSURE\<close>,
  \<open>ADMIN_ACTION\<close>, \<open>FINANCIAL_IMPACT\<close> respectively.
\<close>
theorem correlation_graph_matches_findings:
  "c = gather evs (scan_start base_url token initial_state) \<Longrightarrow>
     dom (logic_graph c) \<subseteq> {''IDOR'', ''PRIVILEGE_ESCALATION'', ''WORKFLOW_BYPASS''}
   \<and> (\<forall>k l. logic_graph c k = Some l \<longrightarrow>
         length l = count_type k (findings c)
       \<and> (k = ''IDOR'' \<longrightarrow> set l = {''DATA_DISCLOSURE''})
       \<and> (k = ''PRIVILEGE_ESCALATION'' \<longrightarrow> set l = {''ADMIN_ACTION''})
       \<and> (k = ''WORKFLOW_BYPASS'' \<longrightarrow> set l = {''FINANCIAL_IMPACT''}))"
proof -
  assume c: "c = gather evs (scan_start base_url token initial_state)"
  have g: "logic_graph c = expected_graph (findings c)"
    unfolding c by (rule gather_graph) simp
  have "dom (logic_graph c) \<subseteq> {''IDOR'', ''PRIVILEGE_ESCALATION'', ''WORKFLOW_BYPASS''}"
  proof
    fix k assume "k \<in> dom (logic_graph c)"
    then obtain l where "expected_graph (findings c) k = Some l"
      using g by auto
    then show "k \<in> {''IDOR'', ''PRIVILEGE_ESCALATION'', ''WORKFLOW_BYPASS''}"
      by (rule expected_graph_Some(1))
  qed
  moreover have "length l = count_type k (findings c)
       \<and> (k = ''IDOR'' \<longrightarrow> set l = {''DATA_DISCLOSURE''})
       \<and> (k = ''PRIVILEGE_ESCALATION'' \<longrightarrow> set l = {''ADMIN_ACTION''})
       \<and> (k = ''WORKFLOW_BYPASS'' \<longrightarrow> set l = {''FINANCIAL_IMPACT''})"
    if "logic_graph c k = Some l" for k l
  proof -
    have e: "expected_graph (findings c) k = Some l" using that g by simp
    show ?thesis
      using expected_graph_Some(2-5) [OF e] by blast
  qed
  ultimately show ?thesis by blast
qed

theorem correlation_graph_matches_findings_witness:
  "logic_graph (demo_scan demo_ok) ''IDOR'' = Some [''DATA_DISCLOSURE'']
   \<and> logic_graph (demo_scan demo_ok) ''PRIVILEGE_ESCALATION''
       = Some [''ADMIN_ACTION'', ''ADMIN_ACTION'']
   \<and> logic_graph (demo_scan demo_ok) ''WORKFLOW_BYPASS'' = Some [''FINANCIAL_IMPACT'']
   \<and> dom (logic_graph (demo_scan demo_ok))
       \<subseteq> {''IDOR'', ''PRIVILEGE_ESCALATION'', ''WORKFLOW_BYPASS''}
   \<and> count_type ''IDOR'' (findings (demo_scan demo_ok)) = 1
   \<and> count_type ''PRIVILEGE_ESCALATION'' (findings (demo_scan demo_ok)) = 2
   \<and> count_type ''WORKFLOW_BYPASS'' (findings (demo_scan demo_ok)) = 1"
  using correlation_graph_matches_findings
    [of "demo_scan demo_ok" "demo_events demo_ok" "''https://t.example''" "''X''"]
    demo_ok_graph demo_ok_count_type
  by (simp add: demo_scan_def)

section \<open>Termination and the number of requests (C10)\<close>

lemma resume_task_measures:
  assumes "resume_task s co c = (co', c')"
  shows "length (sent c') + budget co' \<le> length (sent c) + budget co"
    and "length (findings c') + pending co' + budget co'
           \<le> length (findings c) + pending co + budget co"
    and "turns co' \<le> turns co - 1"
proof -
  have "length (sent c') + budget co' \<le> length (sent c) + budget co
      \<and> length (findings c') + pending co' + budget co'
           \<le> length (findings c) + pending co + budget co
      \<and> turns co' \<le> turns co - 1"
  proof (cases co)
    case (Sleeping chk)
    then show ?thesis
      using assms
      by (cases chk)
         (auto simp: resume_task_def run_check_def suspend_def check_exposed_route_def
            check_missing_auth_def check_idor_def check_idor_loop_cases check_privilege_def
            check_workflow_def Let_def split_def split: if_splits)
  next
    case (InFetch chk i r)
    then show ?thesis
      using assms
      by (cases chk; cases r)
         (auto simp: resume_task_def run_check_def suspend_def check_exposed_route_def
            check_missing_auth_def check_idor_def check_idor_loop_cases check_privilege_def
            check_workflow_def Let_def split_def split: if_splits)
  next
    case Returned
    then show ?thesis
      using assms by (auto simp: resume_task_def)
  qed
  then show "length (sent c') + budget co' \<le> length (sent c) + budget co"
    and "length (findings c') + pending co' + budget co'
           \<le> length (findings c) + pending co + budget co"
    and "turns co' \<le> turns co - 1"
    by simp_all
qed

lemma step_tasks:
  "length (tasks (step ev c)) = length (tasks c)"
  "j \<noteq> fst ev \<Longrightarrow> tasks (step ev c) ! j = tasks c ! j"
  "fst ev < length (tasks c) \<Longrightarrow>
     turns (tasks (step ev c) ! fst ev) \<le> turns (tasks c ! fst ev) - 1"
proof -
  obtain k s where ev: "ev = (k, s)" by (cases ev)
  obtain co' c' where r: "resume_task s (tasks c ! k) c = (co', c')"
    by (cases "resume_task s (tasks c ! k) c") auto
  have t: "tasks c' = tasks c"
    using resume_task_tasks [of s "tasks c ! k" c] r by simp
  have st: "tasks (step ev c) = (if k < length (tasks c) then (tasks c)[k := co'] else tasks c)"
    using ev r t by (simp add: step_def)
  show "length (tasks (step ev c)) = length (tasks c)"
    by (simp add: st)
  show "tasks (step ev c) ! j = tasks c ! j" if "j \<noteq> fst ev"
    using that ev st by auto
  show "turns (tasks (step ev c) ! fst ev) \<le> turns (tasks c ! fst ev) - 1"
    if "fst ev < length (tasks c)"
    using that ev st resume_task_measures(3) [OF r] by auto
qed

lemma gather_length [simp]: "length (tasks (gather evs c)) = length (tasks c)"
  by (induction evs arbitrary: c) (simp_all add: step_tasks(1))

lemma sum_list_update_le:
  fixes f :: "'a \<Rightarrow> nat"
  assumes "k < length xs" and "a' + f x \<le> a + f (xs ! k)"
  shows "a' + sum_list (map f (xs[k := x])) \<le> a + sum_list (map f xs)"
  using assms
proof (induction xs arbitrary: k)
  case Nil
  then show ?case by simp
next
  case (Cons y ys)
  show ?case
  proof (cases k)
    case 0
    then show ?thesis using Cons.prems by simp
  next
    case (Suc j)
    then have "a' + sum_list (map f (ys[j := x])) \<le> a + sum_list (map f ys)"
      using Cons.IH [of j] Cons.prems by simp
    then show ?thesis using Suc by simp
  qed
qed

lemma step_sent_budget:
  "length (sent (step ev c)) + sum_list (map budget (tasks (step ev c)))
     \<le> length (sent c) + sum_list (map budget (tasks c))"
proof (cases ev)
  case (Pair k s)
  show ?thesis
  proof (cases "k < length (tasks c)")
    case True
    obtain co' c' where r: "resume_task s (tasks c ! k) c = (co', c')"
      by (cases "resume_task s (tasks c ! k) c") auto
    have t: "tasks c' = tasks c"
      using resume_task_tasks [of s "tasks c ! k" c] r by simp
    have st: "step ev c = c'\<lparr>tasks := (tasks c)[k := co']\<rparr>"
      using Pair True r t by (simp add: step_def)
    show ?thesis
      unfolding st using sum_list_update_le [OF True, of "length (sent c')" budget co' "length (sent c)"]
        resume_task_measures(1) [OF r]
      by simp
  next
    case False
    then show ?thesis using Pair by (simp add: step_def)
  qed
qed

lemma step_findings_potential:
  "length (findings (step ev c)) + sum_list (map potential (tasks (step ev c)))
     \<le> length (findings c) + sum_list (map potential (tasks c))"
proof (cases ev)
  case (Pair k s)
  show ?thesis
  proof (cases "k < length (tasks c)")
    case True
    obtain co' c' where r: "resume_task s (tasks c ! k) c = (co', c')"
      by (cases "resume_task s (tasks c ! k) c") auto
    have t: "tasks c' = tasks c"
      using resume_task_tasks [of s "tasks c ! k" c] r by simp
    have st: "step ev c = c'\<lparr>tasks := (tasks c)[k := co']\<rparr>"
      using Pair True r t by (simp add: step_def)
    show ?thesis
      unfolding st
      using sum_list_update_le [OF True, of "length (findings c')" potential co' "length (findings c)"]
        resume_task_measures(2) [OF r]
      by (simp add: potential_def)
  next
    case False
    then show ?thesis using Pair by (simp add: step_def)
  qed
qed

lemma gather_sent_budget:
  "length (sent (gather evs c)) + sum_list (map budget (tasks (gather evs c)))
     \<le> length (sent c) + sum_list (map budget (tasks c))"
proof (induction evs arbitrary: c)
  case Nil
  then show ?case by simp
next
  case (Cons ev evs)
  show ?case
    using Cons.IH [of "step ev c"] step_sent_budget [of ev c] by simp
qed

lemma gather_findings_potential:
  "length (findings (gather evs c)) + sum_list (map potential (tasks (gather evs c)))
     \<le> length (findings c) + sum_list (map potential (tasks c))"
proof (induction evs arbitrary: c)
  case Nil
  then show ?case by simp
next
  case (Cons ev evs)
  show ?case
    using Cons.IH [of "step ev c"] step_findings_potential [of ev c] by simp
qed

lemma scan_tasks_budget [simp]: "sum_list (map budget (scan_tasks b t)) = 14"
  by (simp add: scan_tasks_def exposed_def missing_auth_def admin_eps_def waf_guarded_def)

lemma scan_tasks_potential [simp]: "sum_list (map potential (scan_tasks b t)) = 14"
  by (simp add: scan_tasks_def exposed_def missing_auth_def admin_eps_def waf_guarded_def
        potential_def)

lemma gather_turns:
  "j < length (tasks c) \<Longrightarrow>
   turns (tasks (gather evs c) ! j) \<le> turns (tasks c ! j) - count_list (map fst evs) j"
proof (induction evs arbitrary: c)
  case Nil
  then show ?case by simp
next
  case (Cons ev evs)
  have j: "j < length (tasks (step ev c))"
    using Cons.prems by (simp add: step_tasks(1))
  have ih: "turns (tasks (gather evs (step ev c)) ! j)
              \<le> turns (tasks (step ev c) ! j) - count_list (map fst evs) j"
    by (rule Cons.IH [OF j])
  show ?case
  proof (cases "fst ev = j")
    case True
    have "turns (tasks (step ev c) ! j) \<le> turns (tasks c ! j) - 1"
      using step_tasks(3) [of ev c] Cons.prems True by simp
    then show ?thesis using ih True by simp
  next
    case False
    then have "tasks (step ev c) ! j = tasks c ! j"
      using step_tasks(2) [of j ev c] by simp
    then show ?thesis using ih False by simp
  qed
qed

lemma turns_0: "turns co = 0 \<Longrightarrow> co = Returned"
  by (cases co rule: turns.cases) simp_all

lemma scan_tasks_turns: "j < 10 \<Longrightarrow> turns (scan_tasks b t ! j) \<le> 6"
proof -
  have "\<forall>co \<in> set (scan_tasks b t). turns co \<le> 6"
    by (simp add: scan_tasks_def exposed_def missing_auth_def admin_eps_def waf_guarded_def)
  moreover assume "j < 10"
  ultimately show ?thesis
    using nth_mem [of j "scan_tasks b t"] by simp
qed

lemma finishedI: "(\<And>j. j < length (tasks c) \<Longrightarrow> tasks c ! j = Returned) \<Longrightarrow> finished c"
  unfolding finished_def filter_empty_conv by (metis in_set_conv_nth)

lemma fair_schedule_finishes:
  assumes "\<And>j. j < 10 \<Longrightarrow> 6 \<le> count_list (map fst evs) j"
  shows "finished (gather evs (scan_start b t g))"
proof (rule finishedI)
  fix j assume "j < length (tasks (gather evs (scan_start b t g)))"
  then have j: "j < 10" by simp
  have "turns (tasks (gather evs (scan_start b t g)) ! j)
          \<le> turns (tasks (scan_start b t g) ! j) - count_list (map fst evs) j"
    by (rule gather_turns) (simp add: j)
  then have "turns (tasks (gather evs (scan_start b t g)) ! j) = 0"
    using scan_tasks_turns [OF j, of b t] assms [OF j] by simp
  then show "tasks (gather evs (scan_start b t g)) ! j = Returned"
    by (rule turns_0)
qed

lemma scenario_finished:
  "termul_full_async ''https://t.example'' ''X'' (demo_events session) initial_state
     = Some (demo_scan session)"
  using fair_schedule_finishes [of "demo_events session" "''https://t.example''" "''X''" initial_state]
    demo_turns_fair [of _ session]
  by (simp add: termul_full_async_def demo_scan_def)

text \<open>
  C10. For every schedule and every behaviour of the network: a scan never makes more
  than 14 requests (the tasks may make 1, 1, 1, 1, 1, 1, 5, 1, 1 and 1), and started
  from the initial globals never holds more than 14 findings; once every task has had
  six turns \<open>termul_full_async\<close> has returned; and the state it returns in has at most 14
  requests and at most 14 findings.
\<close>
theorem scan_terminates_within_14_requests:
  "length (sent (gather evs (scan_start base_url token g))) \<le> 14
   \<and> length (findings (gather evs (scan_start base_url token initial_state))) \<le> 14
   \<and> ((\<forall>j<10. 6 \<le> count_list (map fst evs) j) \<longrightarrow>
        termul_full_async base_url token evs g \<noteq> None)
   \<and> (termul_full_async base_url token evs initial_state = Some c \<longrightarrow>
        length (sent c) \<le> 14 \<and> length (findings c) \<le> 14)"
proof -
  have sent: "length (sent (gather evs (scan_start base_url token g))) \<le> 14" for g
    using gather_sent_budget [of evs "scan_start base_url token g"] by simp
  have found: "length (findings (gather evs (scan_start base_url token initial_state))) \<le> 14"
    using gather_findings_potential [of evs "scan_start base_url token initial_state"] by simp
  have fair: "termul_full_async base_url token evs g \<noteq> None"
    if "\<forall>j<10. 6 \<le> count_list (map fst evs) j"
    using fair_schedule_finishes [of evs base_url token g] that
    by (simp add: termul_full_async_def)
  have final: "length (sent c) \<le> 14 \<and> length (findings c) \<le> 14"
    if "termul_full_async base_url token evs initial_state = Some c"
    using termul_full_async_Some [OF that] sent [of initial_state] found by simp
  show ?thesis
    using sent found fair final by blast
qed

theorem scan_terminates_within_14_requests_witness:
  "map (count_list (map fst (demo_events demo_ok))) [0..<10] = replicate 10 6
   \<and> termul_full_async ''https://t.example'' ''X'' (demo_events demo_ok) initial_state
       = Some (demo_scan demo_ok)
   \<and> length (sent (demo_scan demo_ok)) = 10
   \<and> length (findings (demo_scan demo_ok)) = 10
   \<and> length (sent (demo_scan demo_down)) \<le> 14"
proof -
  have f: "\<forall>j<10. 6 \<le> count_list (map fst (demo_events demo_ok)) j"
    using demo_turns_fair by blast
  from scan_terminates_within_14_requests
         [of "demo_events demo_ok" "''https://t.example''" "''X''" initial_state
             "demo_scan demo_ok"]
       scan_terminates_within_14_requests
         [of "demo_events demo_down" "''https://t.example''" "''X''" initial_state
             "demo_scan demo_down"]
       f scenario_finished [of demo_ok] demo_ok_lengths demo_turns_counts [of demo_ok]
  show ?thesis by (simp add: demo_scan_def)
qed

section \<open>Scans that stay below the threshold (C7, C8)\<close>

lemma hits_simps [simp]:
  "hits st chk [] = {#}"
  "hits st chk (i # rounds) =
     (if st (request_of chk i) = Some 200 then {#finding_of chk i#} else {#}) + hits st chk rounds"
  by (simp_all add: hits_def)

lemma later_rounds_idor:
  "later_rounds (Check_idor b t) i = (if i + 1 < 6 then (i + 1) # later_rounds (Check_idor b t) (i + 1) else [])"
  by (simp add: upto_rec1)

lemma resume_sleeping_quiet:
  assumes "\<And>req. status_of (s req) = st req" and "\<not> stop_scan c"
    and "resume_task s (Sleeping chk) c = (co', c')"
  shows "findings c' = findings c \<and> stop_scan c' = stop_scan c
       \<and> due st co' = due st (Sleeping chk)
       \<and> length (sent c') + budget co' = length (sent c) + budget (Sleeping chk)"
  using assms(2,3)
  by (cases chk)
     (auto simp: resume_task_def run_check_def suspend_def check_exposed_route_def
        check_missing_auth_def check_idor_def check_idor_loop_cases check_privilege_def
        check_workflow_def Let_def split_def fetch_status assms(1) upto_rec1)

lemma resume_infetch_single:
  assumes "resume_task s (InFetch chk i r) c = (co', c')"
    and "\<And>b t. chk \<noteq> Check_idor b t"
  shows "co' = Returned \<and> sent c' = sent c
       \<and> findings c' = (if fst r = Some 200 then findings c @ [finding_of chk i] else findings c)"
  using assms
  by (cases chk; cases r)
     (auto simp: resume_task_def run_check_def suspend_def check_exposed_route_def
        check_missing_auth_def check_privilege_def check_workflow_def)

lemma resume_infetch_idor_cases:
  "resume_task s (InFetch (Check_idor b t) i r) c =
     (let c1 = (if fst r = Some 200
                then correlate ''IDOR'' ''DATA_DISCLOSURE''
                       (add_finding (finding_of (Check_idor b t) i) c)
                else c)
      in if i + 1 < 6 \<and> \<not> stop_scan c1
         then (InFetch (Check_idor b t) (i + 1)
                 (fst (fetch s ''GET'' (b @ ''?id='' @ str (i + 1))
                         (Some [(''Authorization'', ''Bearer '' @ t)]) None c1)),
               snd (fetch s ''GET'' (b @ ''?id='' @ str (i + 1))
                         (Some [(''Authorization'', ''Bearer '' @ t)]) None c1))
         else (Returned, c1))"
  by (cases r)
     (simp add: resume_task_def run_check_def check_idor_def check_idor_loop_cases suspend_def
        Let_def)

lemma resume_infetch_idor:
  assumes "\<And>req. status_of (s req) = st req"
    and "resume_task s (InFetch (Check_idor b t) i r) c = (co', c')"
  shows "findings c' = (if fst r = Some 200 then findings c @ [finding_of (Check_idor b t) i]
                        else findings c)"
    and "\<not> stop_scan c' \<Longrightarrow>
           due st co' = hits st (Check_idor b t) (later_rounds (Check_idor b t) i)
         \<and> length (sent c') + budget co' = length (sent c) + nat (5 - i)"
proof -
  define c1 where "c1 = (if fst r = Some 200
     then correlate ''IDOR'' ''DATA_DISCLOSURE'' (add_finding (finding_of (Check_idor b t) i) c)
     else c)"
  have f1: "findings c1 = (if fst r = Some 200 then findings c @ [finding_of (Check_idor b t) i]
                           else findings c)"
    and s1: "sent c1 = sent c"
    by (simp_all add: c1_def)
  have r: "(co', c') =
     (if i + 1 < 6 \<and> \<not> stop_scan c1
      then (InFetch (Check_idor b t) (i + 1)
              (fst (fetch s ''GET'' (b @ ''?id='' @ str (i + 1))
                      (Some [(''Authorization'', ''Bearer '' @ t)]) None c1)),
            snd (fetch s ''GET'' (b @ ''?id='' @ str (i + 1))
                      (Some [(''Authorization'', ''Bearer '' @ t)]) None c1))
      else (Returned, c1))"
    using assms(2) unfolding resume_infetch_idor_cases c1_def Let_def by simp
  show "findings c' = (if fst r = Some 200 then findings c @ [finding_of (Check_idor b t) i]
                        else findings c)"
    using r f1 by (simp split: if_splits)
  show "due st co' = hits st (Check_idor b t) (later_rounds (Check_idor b t) i)
         \<and> length (sent c') + budget co' = length (sent c) + nat (5 - i)"
    if "\<not> stop_scan c'"
  proof (cases "i + 1 < 6 \<and> \<not> stop_scan c1")
    case True
    then have co': "co' = InFetch (Check_idor b t) (i + 1)
        (fst (fetch s ''GET'' (b @ ''?id='' @ str (i + 1))
                (Some [(''Authorization'', ''Bearer '' @ t)]) None c1))"
      and c': "c' = snd (fetch s ''GET'' (b @ ''?id='' @ str (i + 1))
                (Some [(''Authorization'', ''Bearer '' @ t)]) None c1)"
      using r by simp_all
    have "due st co' = hits st (Check_idor b t) (later_rounds (Check_idor b t) i)"
      using True unfolding co' later_rounds_idor [of b t i]
      by (simp add: fetch_status assms(1))
    moreover have "length (sent c') + budget co' = length (sent c) + nat (5 - i)"
      using True unfolding co' c' by (auto simp: s1)
    ultimately show ?thesis by simp
  next
    case False
    then have co': "co' = Returned" and c': "c' = c1"
      using r by (auto split: if_splits)
    have "\<not> stop_scan c1" using that c' by simp
    then have i: "\<not> i + 1 < 6" using False by simp
    then show ?thesis
      unfolding co' c' later_rounds_idor [of b t i] by (simp add: s1)
  qed
qed

lemma resume_task_quiet:
  assumes "\<And>req. status_of (s req) = st req" and "\<not> stop_scan c"
    and "resume_task s co c = (co', c')"
  shows "mset (findings c') \<subseteq># mset (findings c) + due st co"
    and "\<not> stop_scan c' \<Longrightarrow>
           mset (findings c') + due st co' = mset (findings c) + due st co
         \<and> length (sent c') + budget co' = length (sent c) + budget co"
proof -
  have "mset (findings c') \<subseteq># mset (findings c) + due st co
      \<and> (\<not> stop_scan c' \<longrightarrow>
           mset (findings c') + due st co' = mset (findings c) + due st co
         \<and> length (sent c') + budget co' = length (sent c) + budget co)"
  proof (cases co)
    case (Sleeping chk)
    show ?thesis
      using resume_sleeping_quiet [where s = s and st = st, OF assms(1,2), of chk co' c']
        assms(3) Sleeping
      by simp
  next
    case (InFetch chk i r)
    show ?thesis
    proof (cases "\<exists>b t. chk = Check_idor b t")
      case True
      then obtain b t where chk: "chk = Check_idor b t" by blast
      have rt: "resume_task s (InFetch (Check_idor b t) i r) c = (co', c')"
        using assms(3) InFetch chk by simp
      show ?thesis
        using resume_infetch_idor [OF assms(1) rt] unfolding InFetch chk
        by auto
    next
      case False
      then have single: "\<And>b t. chk \<noteq> Check_idor b t" by blast
      from resume_infetch_single [OF _ this, of s i r c co' c'] assms(3) InFetch single
      show ?thesis
        by (cases chk) auto
    qed
  next
    case Returned
    then show ?thesis using assms(3) by (auto simp: resume_task_def)
  qed
  then show "mset (findings c') \<subseteq># mset (findings c) + due st co"
    and "\<not> stop_scan c' \<Longrightarrow>
           mset (findings c') + due st co' = mset (findings c) + due st co
         \<and> length (sent c') + budget co' = length (sent c) + budget co"
    by simp_all
qed

lemma count_critical_mset: "count_critical fs = int (critical_in (mset fs))"
  by (simp add: count_critical_def critical_in_def flip: mset_filter)

lemma critical_in_mono: "M \<subseteq># N \<Longrightarrow> critical_in M \<le> critical_in N"
  unfolding critical_in_def by (intro size_mset_mono multiset_filter_mono)

lemma sum_list_update_split:
  fixes f :: "'a \<Rightarrow> 'b::comm_monoid_add"
  shows "k < length xs \<Longrightarrow>
    \<exists>rest. sum_list (map f xs) = f (xs ! k) + rest
         \<and> (\<forall>x. sum_list (map f (xs[k := x])) = f x + rest)"
proof (induction xs arbitrary: k)
  case Nil
  then show ?case by simp
next
  case (Cons y ys)
  show ?case
  proof (cases k)
    case 0
    then show ?thesis by (intro exI [of _ "sum_list (map f ys)"]) simp
  next
    case (Suc j)
    then obtain rest where "sum_list (map f ys) = f (ys ! j) + rest"
      and "\<forall>x. sum_list (map f (ys[j := x])) = f x + rest"
      using Cons.IH [of j] Cons.prems by auto
    then have "sum_list (map f (y # ys)) = f ((y # ys) ! k) + (y1 + rest)"
      and "\<forall>x. sum_list (map f ((y # ys)[k := x])) = f x + (y1 + rest)"
      if "y1 = f y" for y1
      using Suc that by (simp_all add: ac_simps)
    then show ?thesis by blast
  qed
qed

lemma step_quiet:
  assumes "\<And>req. status_of (snd ev req) = st req" and "\<not> stop_scan c"
  shows "mset (findings (step ev c))
           \<subseteq># mset (findings c) + sum_list (map (due st) (tasks c))"
    and "\<not> stop_scan (step ev c) \<Longrightarrow>
           mset (findings (step ev c)) + sum_list (map (due st) (tasks (step ev c)))
             = mset (findings c) + sum_list (map (due st) (tasks c))
         \<and> length (sent (step ev c)) + sum_list (map budget (tasks (step ev c)))
             = length (sent c) + sum_list (map budget (tasks c))"
proof -
  obtain k s where ev: "ev = (k, s)" by (cases ev)
  have "mset (findings (step ev c))
           \<subseteq># mset (findings c) + sum_list (map (due st) (tasks c))
      \<and> (\<not> stop_scan (step ev c) \<longrightarrow>
           mset (findings (step ev c)) + sum_list (map (due st) (tasks (step ev c)))
             = mset (findings c) + sum_list (map (due st) (tasks c))
         \<and> length (sent (step ev c)) + sum_list (map budget (tasks (step ev c)))
             = length (sent c) + sum_list (map budget (tasks c)))"
  proof (cases "k < length (tasks c)")
    case True
    obtain co' c' where r: "resume_task s (tasks c ! k) c = (co', c')"
      by (cases "resume_task s (tasks c ! k) c") auto
    have t: "tasks c' = tasks c"
      using resume_task_tasks [of s "tasks c ! k" c] r by simp
    have st: "step ev c = c'\<lparr>tasks := (tasks c)[k := co']\<rparr>"
      using ev True r t by (simp add: step_def)
    have s: "\<And>req. status_of (s req) = st req"
      using assms(1) ev by simp
    obtain D where D: "sum_list (map (due st) (tasks c)) = due st (tasks c ! k) + D"
      "sum_list (map (due st) ((tasks c)[k := co'])) = due st co' + D"
      using sum_list_update_split [OF True, of "due st"] by blast
    obtain B where B: "sum_list (map budget (tasks c)) = budget (tasks c ! k) + B"
      "sum_list (map budget ((tasks c)[k := co'])) = budget co' + B"
      using sum_list_update_split [OF True, of budget] by blast
    have "mset (findings c') \<subseteq># mset (findings c) + due st (tasks c ! k)"
      by (rule resume_task_quiet(1) [OF s assms(2) r])
    then have 1: "mset (findings c') \<subseteq># mset (findings c) + sum_list (map (due st) (tasks c))"
      unfolding D(1) by (metis add.assoc mset_subset_eq_add_left subset_mset.order_trans)
    have 2: "mset (findings c') + (due st co' + D) = mset (findings c) + (due st (tasks c ! k) + D)
           \<and> length (sent c') + (budget co' + B) = length (sent c) + (budget (tasks c ! k) + B)"
      if "\<not> stop_scan c'"
      using resume_task_quiet(2) [OF s assms(2) r that] by (simp flip: add.assoc)
    show ?thesis
      unfolding st using 1 2 D B by simp
  next
    case False
    then show ?thesis using ev by (simp add: step_def)
  qed
  then show "mset (findings (step ev c))
           \<subseteq># mset (findings c) + sum_list (map (due st) (tasks c))"
    and "\<not> stop_scan (step ev c) \<Longrightarrow>
           mset (findings (step ev c)) + sum_list (map (due st) (tasks (step ev c)))
             = mset (findings c) + sum_list (map (due st) (tasks c))
         \<and> length (sent (step ev c)) + sum_list (map budget (tasks (step ev c)))
             = length (sent c) + sum_list (map budget (tasks c))"
    by simp_all
qed

lemma gather_quiet:
  assumes "\<forall>ev \<in> set evs. \<forall>req. status_of (snd ev req) = st req"
    and "critical_count c = count_critical (findings c)"
    and "stop_scan c = (2 \<le> critical_count c)"
    and "critical_in (mset (findings c) + sum_list (map (due st) (tasks c))) < 2"
  shows "\<not> stop_scan (gather evs c)
       \<and> mset (findings (gather evs c)) + sum_list (map (due st) (tasks (gather evs c)))
           = mset (findings c) + sum_list (map (due st) (tasks c))
       \<and> length (sent (gather evs c)) + sum_list (map budget (tasks (gather evs c)))
           = length (sent c) + sum_list (map budget (tasks c))"
  using assms
proof (induction evs arbitrary: c)
  case Nil
  have "critical_in (mset (findings c)) < 2"
    using critical_in_mono [of "mset (findings c)"
        "mset (findings c) + sum_list (map (due st) (tasks c))"] Nil.prems(4)
    by simp
  then show ?case
    using Nil.prems(2,3) by (simp add: count_critical_mset)
next
  case (Cons ev evs)
  let ?T = "mset (findings c) + sum_list (map (due st) (tasks c))"
  have ev: "\<And>req. status_of (snd ev req) = st req"
    using Cons.prems(1) by simp
  have "critical_in (mset (findings c)) < 2"
    using critical_in_mono [of "mset (findings c)" ?T] Cons.prems(4) by simp
  then have quiet: "\<not> stop_scan c"
    using Cons.prems(2,3) by (simp add: count_critical_mset)
  have i1: "critical_count (step ev c) = count_critical (findings (step ev c))"
    by (rule step_I1 [OF Cons.prems(2)])
  have i3: "stop_scan (step ev c) = (2 \<le> critical_count (step ev c))"
    by (rule step_I3 [OF Cons.prems(3)])
  have "critical_in (mset (findings (step ev c))) < 2"
    using critical_in_mono [OF step_quiet(1) [OF ev quiet]] Cons.prems(4) by simp
  then have quiet': "\<not> stop_scan (step ev c)"
    using i1 i3 by (simp add: count_critical_mset)
  have eq: "mset (findings (step ev c)) + sum_list (map (due st) (tasks (step ev c))) = ?T"
    "length (sent (step ev c)) + sum_list (map budget (tasks (step ev c)))
             = length (sent c) + sum_list (map budget (tasks c))"
    using step_quiet(2) [OF ev quiet quiet'] by simp_all
  have "\<not> stop_scan (gather evs (step ev c))
       \<and> mset (findings (gather evs (step ev c)))
           + sum_list (map (due st) (tasks (gather evs (step ev c))))
           = mset (findings (step ev c)) + sum_list (map (due st) (tasks (step ev c)))
       \<and> length (sent (gather evs (step ev c)))
           + sum_list (map budget (tasks (gather evs (step ev c))))
           = length (sent (step ev c)) + sum_list (map budget (tasks (step ev c)))"
    by (rule Cons.IH) (use Cons.prems(1,4) i1 i3 eq in simp_all)
  then show ?case
    using eq by simp
qed

lemma sum_list_all_zero:
  fixes f :: "'a \<Rightarrow> 'b::monoid_add"
  shows "\<forall>x \<in> set xs. f x = 0 \<Longrightarrow> sum_list (map f xs) = 0"
  by (induction xs) simp_all

lemma finished_sums:
  assumes "finished c"
  shows "sum_list (map (due st) (tasks c)) = {#}" and "sum_list (map budget (tasks c)) = 0"
proof -
  have "\<forall>co \<in> set (tasks c). co = Returned"
    using assms unfolding finished_def filter_empty_conv by simp
  then have "\<forall>co \<in> set (tasks c). due st co = {#}" and "\<forall>co \<in> set (tasks c). budget co = 0"
    by auto
  then show "sum_list (map (due st) (tasks c)) = {#}" and "sum_list (map budget (tasks c)) = 0"
    using sum_list_all_zero [of "tasks c" "due st"] sum_list_all_zero [of "tasks c" budget]
    by simp_all
qed

lemma upto_2_5: "[2..5] = [2, 3, 4, 5]"
  by (simp add: upto_rec1)

lemma mset_pair:
  assumes "mset xs = {#a, b#}"
  shows "xs = [a, b] \<or> xs = [b, a]"
proof -
  have "length xs = 2"
    using assms by (metis size_mset size_add_mset size_empty numeral_2_eq_2)
  then obtain x y where xs: "xs = [x, y]"
    by (cases xs; cases "tl xs") auto
  show ?thesis
    using assms unfolding xs by (auto simp: add_eq_conv_ex)
qed

text \<open>
  C7. A full scan of \<open>https://t.example\<close> with token \<open>X\<close> from the initial globals,
  under any schedule, against a network that answers 200 to a GET of
  \<open>https://t.example/admin\<close> and of \<open>https://t.example/api/internal/report\<close> and 404 to
  every other request: once every task has had six turns, \<open>termul_full_async\<close> has
  returned; and in the state it returns in there are exactly two findings, the
  EXPOSED_ROUTE/HIGH one for the admin URL and the MISSING_AUTH/CRITICAL one for the
  report URL, in the order the two replies were handled; \<open>critical_count\<close> is 1 and
  \<open>stop_scan\<close> is false.
\<close>
theorem scan_of_admin_and_report:
  assumes "\<forall>ev \<in> set evs. \<forall>req. \<exists>body. snd ev req =
             Response (if req_method req = ''GET''
                          \<and> (req_url req = ''https://t.example/admin''
                             \<or> req_url req = ''https://t.example/api/internal/report'')
                       then 200 else 404) body"
  shows "((\<forall>j<10. 6 \<le> count_list (map fst evs) j) \<longrightarrow>
            termul_full_async ''https://t.example'' ''X'' evs initial_state \<noteq> None)
       \<and> (termul_full_async ''https://t.example'' ''X'' evs initial_state = Some c \<longrightarrow>
            (findings c =
               [\<lparr>type = ''EXPOSED_ROUTE'', endpoint = ''https://t.example/admin'',
                  risk = ''HIGH''\<rparr>,
                \<lparr>type = ''MISSING_AUTH'', endpoint = ''https://t.example/api/internal/report'',
                  risk = ''CRITICAL''\<rparr>]
             \<or> findings c =
               [\<lparr>type = ''MISSING_AUTH'', endpoint = ''https://t.example/api/internal/report'',
                  risk = ''CRITICAL''\<rparr>,
                \<lparr>type = ''EXPOSED_ROUTE'', endpoint = ''https://t.example/admin'',
                  risk = ''HIGH''\<rparr>])
          \<and> critical_count c = 1 \<and> \<not> stop_scan c)"
proof -
  let ?a = "\<lparr>type = ''EXPOSED_ROUTE'', endpoint = ''https://t.example/admin'', risk = ''HIGH''\<rparr>"
  let ?b = "\<lparr>type = ''MISSING_AUTH'', endpoint = ''https://t.example/api/internal/report'',
               risk = ''CRITICAL''\<rparr>"
  have fair: "termul_full_async ''https://t.example'' ''X'' evs initial_state \<noteq> None"
    if "\<forall>j<10. 6 \<le> count_list (map fst evs) j"
    using fair_schedule_finishes [of evs "''https://t.example''" "''X''" initial_state] that
    by (simp add: termul_full_async_def)
  have final: "(findings c = [?a, ?b] \<or> findings c = [?b, ?a])
       \<and> critical_count c = 1 \<and> \<not> stop_scan c"
    if some: "termul_full_async ''https://t.example'' ''X'' evs initial_state = Some c"
  proof -
  define st :: "request \<Rightarrow> int option" where
    "st = (\<lambda>req. Some (if req_method req = ''GET''
                          \<and> (req_url req = ''https://t.example/admin''
                             \<or> req_url req = ''https://t.example/api/internal/report'')
                       then 200 else 404))"
  let ?c0 = "scan_start ''https://t.example'' ''X'' initial_state"
  have c: "c = gather evs ?c0" and fin: "finished c"
    using termul_full_async_Some [OF some] by blast+
  have statuses: "\<forall>ev \<in> set evs. \<forall>req. status_of (snd ev req) = st req"
  proof (intro ballI allI)
    fix ev req assume "ev \<in> set evs"
    then obtain body where "snd ev req = Response (if req_method req = ''GET''
                          \<and> (req_url req = ''https://t.example/admin''
                             \<or> req_url req = ''https://t.example/api/internal/report'')
                       then 200 else 404) body"
      using assms by blast
    then show "status_of (snd ev req) = st req"
      by (simp add: status_of_def st_def)
  qed
  have total: "sum_list (map (due st) (scan_tasks ''https://t.example'' ''X'')) = {#?a, ?b#}"
    by (simp add: scan_tasks_def exposed_def missing_auth_def admin_eps_def waf_guarded_def
          upto_2_5 st_def)
  have "\<not> stop_scan (gather evs ?c0)
       \<and> mset (findings (gather evs ?c0)) + sum_list (map (due st) (tasks (gather evs ?c0)))
           = mset (findings ?c0) + sum_list (map (due st) (tasks ?c0))
       \<and> length (sent (gather evs ?c0)) + sum_list (map budget (tasks (gather evs ?c0)))
           = length (sent ?c0) + sum_list (map budget (tasks ?c0))"
    by (rule gather_quiet [OF statuses]) (simp_all add: total critical_in_def)
  then have quiet: "\<not> stop_scan c" and found: "mset (findings c) = {#?a, ?b#}"
    using finished_sums(1) [OF fin, of st] total unfolding c [symmetric] by simp_all
  have "critical_count c = count_critical (findings c)"
    unfolding c by (rule gather_I1) simp
  then have "critical_count c = 1"
    by (simp add: count_critical_mset found critical_in_def)
  then show ?thesis
    using quiet mset_pair [OF found] by simp
  qed
  show ?thesis
    using fair final by blast
qed

theorem scan_of_admin_and_report_witness:
  "map (count_list (map fst (demo_events scenario_oracle))) [0..<10] = replicate 10 6
   \<and> termul_full_async ''https://t.example'' ''X'' (demo_events scenario_oracle) initial_state
     = Some (demo_scan scenario_oracle)
   \<and> findings (demo_scan scenario_oracle) =
       [\<lparr>type = ''EXPOSED_ROUTE'', endpoint = ''https://t.example/admin'', risk = ''HIGH''\<rparr>,
        \<lparr>type = ''MISSING_AUTH'', endpoint = ''https://t.example/api/internal/report'',
          risk = ''CRITICAL''\<rparr>]
   \<and> critical_count (demo_scan scenario_oracle) = 1
   \<and> \<not> stop_scan (demo_scan scenario_oracle)"
proof -
  have "\<forall>ev \<in> set (demo_events scenario_oracle). \<forall>req. \<exists>body. snd ev req =
             Response (if req_method req = ''GET''
                          \<and> (req_url req = ''https://t.example/admin''
                             \<or> req_url req = ''https://t.example/api/internal/report'')
                       then 200 else 404) body"
    by (auto simp: demo_events_def scenario_oracle_def)
  from scan_of_admin_and_report [OF this, of "demo_scan scenario_oracle"]
       scenario_finished [of scenario_oracle] scenario_findings
       demo_turns_counts [of scenario_oracle] demo_turns_fair [of _ scenario_oracle]
  show ?thesis by simp
qed

text \<open>
  C8. A scan from the initial globals in which every request fails: in every state it
  reaches, under any schedule, there is no finding, \<open>critical_count\<close> is 0 and \<open>stop_scan\<close>
  is false; once every task has had six turns, \<open>termul_full_async\<close> has returned; and in
  the state it returns in, every task has returned, all 14 requests have been made (no
  task was cut short), and there is no finding and no edge.
\<close>
theorem scan_with_every_request_failing:
  assumes "\<forall>ev \<in> set evs. \<forall>req. snd ev req = Raised"
  shows "findings (gather evs (scan_start base_url token initial_state)) = []
       \<and> critical_count (gather evs (scan_start base_url token initial_state)) = 0
       \<and> \<not> stop_scan (gather evs (scan_start base_url token initial_state))
       \<and> ((\<forall>j<10. 6 \<le> count_list (map fst evs) j) \<longrightarrow>
            termul_full_async base_url token evs initial_state \<noteq> None)
       \<and> (termul_full_async base_url token evs initial_state = Some c \<longrightarrow>
            finished c \<and> length (sent c) = 14 \<and> findings c = [] \<and> critical_count c = 0
          \<and> \<not> stop_scan c \<and> logic_graph c = Map.empty)"
proof -
  let ?c0 = "scan_start base_url token initial_state"
  let ?st = "\<lambda>req::request. None :: int option"
  have statuses: "\<forall>ev \<in> set evs. \<forall>req. status_of (snd ev req) = ?st req"
    using assms by (simp add: status_of_def)
  have total: "sum_list (map (due ?st) (scan_tasks base_url token)) = {#}"
    by (simp add: scan_tasks_def exposed_def missing_auth_def admin_eps_def waf_guarded_def
          upto_2_5)
  have q: "\<not> stop_scan (gather evs ?c0)
       \<and> mset (findings (gather evs ?c0)) + sum_list (map (due ?st) (tasks (gather evs ?c0)))
           = mset (findings ?c0) + sum_list (map (due ?st) (tasks ?c0))
       \<and> length (sent (gather evs ?c0)) + sum_list (map budget (tasks (gather evs ?c0)))
           = length (sent ?c0) + sum_list (map budget (tasks ?c0))"
    by (rule gather_quiet [OF statuses]) (simp_all add: total critical_in_def)
  then have none: "findings (gather evs ?c0) = []"
    by (simp add: total)
  have "critical_count (gather evs ?c0) = count_critical (findings (gather evs ?c0))"
    by (rule gather_I1) simp
  then have zero: "critical_count (gather evs ?c0) = 0"
    by (simp add: none)
  have "logic_graph (gather evs ?c0) = expected_graph (findings (gather evs ?c0))"
    by (rule gather_graph) simp
  then have graph: "logic_graph (gather evs ?c0) = Map.empty"
    by (simp add: none)
  have fair: "termul_full_async base_url token evs initial_state \<noteq> None"
    if "\<forall>j<10. 6 \<le> count_list (map fst evs) j"
    using fair_schedule_finishes [of evs base_url token initial_state] that
    by (simp add: termul_full_async_def)
  have final: "finished c \<and> length (sent c) = 14 \<and> findings c = [] \<and> critical_count c = 0
          \<and> \<not> stop_scan c \<and> logic_graph c = Map.empty"
    if "termul_full_async base_url token evs initial_state = Some c"
  proof -
    have c: "c = gather evs ?c0" and fin: "finished c"
      using termul_full_async_Some [OF that] by blast+
    have "length (sent c) = 14"
      using q finished_sums(2) [OF fin] unfolding c [symmetric] by simp
    then show ?thesis
      using fin none zero graph q unfolding c [symmetric] by simp
  qed
  show ?thesis
    using none zero q fair final by blast
qed

theorem scan_with_every_request_failing_witness:
  "map (count_list (map fst (demo_events demo_down))) [0..<10] = replicate 10 6
   \<and> termul_full_async ''https://t.example'' ''X'' (demo_events demo_down) initial_state
       = Some (demo_scan demo_down)
   \<and> finished (demo_scan demo_down)
   \<and> length (sent (demo_scan demo_down)) = 14
   \<and> findings (demo_scan demo_down) = []
   \<and> critical_count (demo_scan demo_down) = 0
   \<and> \<not> stop_scan (demo_scan demo_down)
   \<and> logic_graph (demo_scan demo_down) = Map.empty"
proof -
  have h: "\<forall>ev \<in> set (demo_events demo_down). \<forall>req. snd ev req = Raised"
    by (auto simp: demo_events_def demo_down_def)
  have f: "\<forall>j<10. 6 \<le> count_list (map fst (demo_events demo_down)) j"
    using demo_turns_fair by blast
  from scan_with_every_request_failing
         [OF h, of "''https://t.example''" "''X''" "demo_scan demo_down"]
       h f scenario_finished [of demo_down] demo_turns_counts [of demo_down]
  show ?thesis by simp
qed

end
